theory Spec2Isabelle
  imports Complex_Main "HOL-Library.Word" "HOL-Library.Multiset"
begin


section \<open>The city-growth simulator of \<open>city_sim.cpp\<close>\<close>

text \<open>
  The simulator keeps its state in global containers: the grid of cell tags, the
  per-cell building records, the cars, the road sequence, the water-cell sequence and
  the step counter. The model threads one record through every routine. The grid
  dimensions are compile-time constants of the source (80 by 45); the model takes them
  from a configuration record, so that one development covers the program's own
  dimensions and the small grids of the specification's scenarios.
\<close>

subsection \<open>Data model\<close>

datatype CellType =
  EMPTY | ROAD | RESIDENTIAL | COMMERCIAL | INDUSTRIAL | WATER | PARK
  | POWER_PLANT | GOVERNMENT | FOREST | FARM

datatype BuildingStyle = BASIC | MODERN | HISTORIC | FANCY

record Building =
  btype :: CellType
  density :: int
  age :: int
  style :: BuildingStyle
  variant :: int
  hasTree :: bool
  hasCar :: bool

text \<open>
  A car's position and speed are C \<open>float\<close>s. The model does not fix a floating-point
  semantics: the type of floats is a parameter \<open>'f\<close>, and the four operations the
  traffic code applies to floats (conversion from \<open>int\<close>, addition, multiplication,
  \<open>static_cast<int>\<close>) and the speed distribution are fields of the configuration.
\<close>

record 'f Car =
  car_x :: 'f
  car_y :: 'f
  speed :: 'f
  direction :: int
  roadIndex :: int
  color :: "int \<times> int \<times> int \<times> int"

record 'f config =
  GRID_WIDTH :: int
  GRID_HEIGHT :: int
  INITIAL_ROADS :: nat
  f_of_int :: "int \<Rightarrow> 'f"
  f_add :: "'f \<Rightarrow> 'f \<Rightarrow> 'f"
  f_mul :: "'f \<Rightarrow> 'f \<Rightarrow> 'f"
  f_trunc :: "'f \<Rightarrow> int"
  f_speed :: "int \<Rightarrow> 'f"

text \<open>
  The pseudo-random generator \<open>gen\<close> has no seed contract. It is modelled as an
  arbitrary stream of integers, \<open>gen\<close>, read at position \<open>drawn\<close> and reduced to the
  generator's 32-bit range. A draw from a distribution takes one element of the stream
  and maps it into the distribution's range, however many raw outputs the library
  consumes for it: since the stream is arbitrary, every sequence of results the
  library can produce is the result of some stream, and a theorem that holds for
  every stream holds for every run of the generator.
\<close>

text \<open>
  The grid and the building records are vectors of vectors of the fixed dimensions; the
  model has them as functions on coordinate pairs. The source indexes them only inside
  loop bounds or behind \<open>isValidCell\<close>, and the model keeps each of these guards, so no
  value outside the grid is ever read as a cell.
\<close>

record 'f sim =
  grid :: "int \<times> int \<Rightarrow> CellType"
  buildings :: "int \<times> int \<Rightarrow> Building"
  cars :: "'f Car list"
  roads :: "(int \<times> int) list"
  waterCells :: "(int \<times> int) list"
  currentStep :: int
  gen :: "nat \<Rightarrow> int"
  drawn :: nat

subsection \<open>Random draws\<close>

definition gen_next :: "'f sim \<Rightarrow> int \<times> 'f sim" where
  "gen_next s = (gen s (drawn s) mod 2 ^ 32, s\<lparr>drawn := Suc (drawn s)\<rparr>)"

definition uniform_int :: "int \<Rightarrow> int \<Rightarrow> 'f sim \<Rightarrow> int \<times> 'f sim" where
  "uniform_int a b s =
     (case gen_next s of (r, s') \<Rightarrow> (a + r mod (b - a + 1), s'))"

definition uniform_speed :: "'f config \<Rightarrow> 'f sim \<Rightarrow> 'f \<times> 'f sim" where
  "uniform_speed cfg s = (case gen_next s of (r, s') \<Rightarrow> (f_speed cfg r, s'))"

definition swap_at :: "nat \<Rightarrow> nat \<Rightarrow> 'a list \<Rightarrow> 'a list" where
  "swap_at i j xs = xs[i := xs ! j, j := xs ! i]"

text \<open>
  \<open>std::shuffle\<close>: the permutation is chosen by the generator. The model is the
  exchange shuffle, position \<open>i\<close> from the last down to 1 exchanged with a drawn
  position in \<open>0..i\<close>, which yields every permutation for a suitable stream.
\<close>

fun shuffle_from :: "nat \<Rightarrow> 'a list \<Rightarrow> 'f sim \<Rightarrow> 'a list \<times> 'f sim" where
  "shuffle_from 0 xs s = (xs, s)"
| "shuffle_from (Suc i) xs s =
     (case uniform_int 0 (int (Suc i)) s of
        (j, s') \<Rightarrow> shuffle_from i (swap_at (Suc i) (nat j) xs) s')"

definition shuffle :: "'a list \<Rightarrow> 'f sim \<Rightarrow> 'a list \<times> 'f sim" where
  "shuffle xs s = shuffle_from (length xs - 1) xs s"

subsection \<open>Grid helpers\<close>

definition dx :: "int \<Rightarrow> int" where
  "dx i = [-1, 0, 1, 0, -1, -1, 1, 1] ! nat i"

definition dy :: "int \<Rightarrow> int" where
  "dy i = [0, 1, 0, -1, -1, 1, 1, -1] ! nat i"

definition isValidCell :: "'f config \<Rightarrow> int \<Rightarrow> int \<Rightarrow> bool" where
  "isValidCell cfg x y \<longleftrightarrow> x \<ge> 0 \<and> x < GRID_WIDTH cfg \<and> y \<ge> 0 \<and> y < GRID_HEIGHT cfg"

definition countNeighborsOfTypeInRadius ::
  "'f config \<Rightarrow> 'f sim \<Rightarrow> int \<Rightarrow> int \<Rightarrow> CellType \<Rightarrow> int \<Rightarrow> int" where
  "countNeighborsOfTypeInRadius cfg s x y t radius =
     fold (\<lambda>i count.
        fold (\<lambda>j count.
           if i = 0 \<and> j = 0 then count
           else if isValidCell cfg (x + i) (y + j) \<and> grid s (x + i, y + j) = t
                then count + 1 else count)
          [- radius..radius] count)
       [- radius..radius] 0"

text \<open>All cells in the order of the source's nested loops, \<open>x\<close> outside and \<open>y\<close> inside.\<close>

definition allCells :: "'f config \<Rightarrow> (int \<times> int) list" where
  "allCells cfg =
     concat (map (\<lambda>x. map (\<lambda>y. (x, y)) [0..GRID_HEIGHT cfg - 1]) [0..GRID_WIDTH cfg - 1])"

subsection \<open>Growth engine\<close>

text \<open>The candidate collection at the head of \<open>growCity\<close>.\<close>

definition buildingSpots :: "'f config \<Rightarrow> 'f sim \<Rightarrow> (int \<times> int) list" where
  "buildingSpots cfg s =
     concat (map (\<lambda>r.
        filter (\<lambda>n. isValidCell cfg (fst n) (snd n) \<and> grid s n = EMPTY)
          (map (\<lambda>d. (fst r + dx d, snd r + dy d)) [0, 1, 2, 3]))
       (roads s))"

definition style_of_int :: "int \<Rightarrow> BuildingStyle" where
  "style_of_int i = (if i = 0 then BASIC else if i = 1 then MODERN
                     else if i = 2 then HISTORIC else FANCY)"

text \<open>The type chosen for one admitted spot, from the roll \<open>randType\<close>.\<close>

definition chooseType :: "'f config \<Rightarrow> 'f sim \<Rightarrow> int \<Rightarrow> int \<Rightarrow> int \<Rightarrow> CellType" where
  "chooseType cfg s x y randType =
     (let t0 = (if randType < 60 then RESIDENTIAL
                else if randType < 85 then COMMERCIAL else INDUSTRIAL);
          t1 = (if countNeighborsOfTypeInRadius cfg s x y WATER 3 > 0 \<and> randType < 80
                then RESIDENTIAL else t0);
          t2 = (if (countNeighborsOfTypeInRadius cfg s x y PARK 3 > 0
                    \<or> countNeighborsOfTypeInRadius cfg s x y FOREST 3 > 0) \<and> randType < 75
                then RESIDENTIAL else t1)
      in if randType > 95 \<and> currentStep s > 50 then PARK else t2)"

text \<open>The body of the placement loop of \<open>growCity\<close>, for the spot \<open>(x, y)\<close>.\<close>

definition placeBuilding :: "'f config \<Rightarrow> int \<times> int \<Rightarrow> 'f sim \<Rightarrow> 'f sim" where
  "placeBuilding cfg p s =
     (case p of (x, y) \<Rightarrow>
      case uniform_int 0 100 s of (randType, s1) \<Rightarrow>
      let t = chooseType cfg s1 x y randType in
      case uniform_int 0 3 s1 of (st, s2) \<Rightarrow>
      case uniform_int 0 4 s2 of (v, s3) \<Rightarrow>
      let b = (buildings s3 (x, y))
                \<lparr>btype := t, density := 1, age := 0, style := style_of_int st, variant := v\<rparr>;
          s4 = s3\<lparr>grid := (grid s3)((x, y) := t), buildings := (buildings s3)((x, y) := b)\<rparr>
      in if t = RESIDENTIAL \<or> t = COMMERCIAL then
           (case uniform_int 0 100 s4 of (tr, s5) \<Rightarrow>
              if tr < 40
              then s5\<lparr>buildings := (buildings s5)((x, y) := (buildings s5 (x, y))\<lparr>hasTree := True\<rparr>)\<rparr>
              else s5)
         else s4)"

text \<open>
  The body of the maturation loop, for the cell \<open>p\<close>: its three statements, then the
  guard around them.
\<close>

definition ageUp :: "int \<times> int \<Rightarrow> 'f sim \<Rightarrow> 'f sim" where
  "ageUp p s =
     s\<lparr>buildings := (buildings s)(p := (buildings s p)\<lparr>age := age (buildings s p) + 1\<rparr>)\<rparr>"

definition promote :: "int \<times> int \<Rightarrow> 'f sim \<Rightarrow> 'f sim" where
  "promote p s =
     (if age (buildings s p) mod 20 = 0 \<and> density (buildings s p) < 3
         \<and> (grid s p = RESIDENTIAL \<or> grid s p = COMMERCIAL \<or> grid s p = INDUSTRIAL)
      then (case gen_next s of (r, s') \<Rightarrow>
              if r mod 5 < 3
              then s'\<lparr>buildings := (buildings s')(p := (buildings s' p)
                       \<lparr>density := density (buildings s' p) + 1\<rparr>)\<rparr>
              else s')
      else s)"

definition plantTree :: "int \<times> int \<Rightarrow> 'f sim \<Rightarrow> 'f sim" where
  "plantTree p s =
     (if \<not> hasTree (buildings s p) \<and> grid s p = RESIDENTIAL \<and> age (buildings s p) mod 30 = 0
      then (case gen_next s of (r, s') \<Rightarrow>
              if r mod 10 < 4
              then s'\<lparr>buildings := (buildings s')(p := (buildings s' p)\<lparr>hasTree := True\<rparr>)\<rparr>
              else s')
      else s)"

definition matureCell :: "int \<times> int \<Rightarrow> 'f sim \<Rightarrow> 'f sim" where
  "matureCell p s =
     (if grid s p \<noteq> EMPTY \<and> grid s p \<noteq> ROAD \<and> grid s p \<noteq> WATER
      then plantTree p (promote p (ageUp p s))
      else s)"

text \<open>The candidate collection of the road-extension block of \<open>growCity\<close>.\<close>

definition nearRoad :: "'f config \<Rightarrow> 'f sim \<Rightarrow> int \<times> int \<Rightarrow> bool" where
  "nearRoad cfg s p =
     list_ex (\<lambda>d2. isValidCell cfg (fst p + dx d2) (snd p + dy d2)
                  \<and> grid s (fst p + dx d2, snd p + dy d2) = ROAD) [0, 1, 2, 3]"

definition roadSpots :: "'f config \<Rightarrow> 'f sim \<Rightarrow> (int \<times> int) list" where
  "roadSpots cfg s =
     concat (map (\<lambda>p.
        if grid s p \<noteq> EMPTY \<and> grid s p \<noteq> ROAD \<and> grid s p \<noteq> WATER then
          filter (\<lambda>n. isValidCell cfg (fst n) (snd n) \<and> grid s n = EMPTY \<and> nearRoad cfg s n)
            (map (\<lambda>d. (fst p + dx d, snd p + dy d)) [0, 1, 2, 3])
        else [])
       (allCells cfg))"

definition claimRoad :: "int \<times> int \<Rightarrow> 'f sim \<Rightarrow> 'f sim" where
  "claimRoad p s = s\<lparr>grid := (grid s)(p := ROAD), roads := roads s @ [p]\<rparr>"

text \<open>The road-extension block of \<open>growCity\<close>, under its guard \<open>currentStep % 10 == 0\<close>.\<close>

definition extendRoads :: "'f config \<Rightarrow> 'f sim \<Rightarrow> 'f sim" where
  "extendRoads cfg s =
     (case shuffle (roadSpots cfg s) s of (spots, s1) \<Rightarrow>
      let maxRoadsPerStep = 1 + currentStep s1 div 100;
          newRoads = min maxRoadsPerStep (int (length spots))
      in fold claimRoad (take (nat newRoads) spots) s1)"

definition placeBuildings :: "'f config \<Rightarrow> 'f sim \<Rightarrow> 'f sim" where
  "placeBuildings cfg s =
     (case shuffle (buildingSpots cfg s) s of (spots, s1) \<Rightarrow>
      let maxBuildingsPerStep = 1 + currentStep s1 div 50;
          newBuildings = min maxBuildingsPerStep (int (length spots))
      in fold (placeBuilding cfg) (take (nat newBuildings) spots) s1)"

definition matureBuildings :: "'f config \<Rightarrow> 'f sim \<Rightarrow> 'f sim" where
  "matureBuildings cfg s = fold matureCell (allCells cfg) s"

definition growCity :: "'f config \<Rightarrow> 'f sim \<Rightarrow> 'f sim" where
  "growCity cfg s =
     (let s1 = placeBuildings cfg s;
          s2 = matureBuildings cfg s1
      in if currentStep s2 mod 10 = 0 then extendRoads cfg s2 else s2)"

subsection \<open>Traffic agents\<close>

definition addRandomCar :: "'f config \<Rightarrow> 'f sim \<Rightarrow> 'f sim" where
  "addRandomCar cfg s =
     (if roads s = [] then s
      else
        case uniform_int 0 (int (length (roads s)) - 1) s of (ri, s1) \<Rightarrow>
        case roads s1 ! nat ri of (x, y) \<Rightarrow>
        case uniform_speed cfg s1 of (sp, s2) \<Rightarrow>
        case uniform_int 0 3 s2 of (dir, s3) \<Rightarrow>
        case uniform_int 150 250 s3 of (cr, s4) \<Rightarrow>
        case uniform_int 150 250 s4 of (cg, s5) \<Rightarrow>
        case uniform_int 150 250 s5 of (cb, s6) \<Rightarrow>
        s6\<lparr>cars := cars s6 @
               [\<lparr>car_x = f_of_int cfg x, car_y = f_of_int cfg y, speed = sp,
                 direction = dir, roadIndex = ri, color = (cr, cg, cb, 255)\<rparr>]\<rparr>)"

text \<open>\<open>car.x + dx[d] * car.speed\<close>, the integer offset converted to float first.\<close>

definition advance :: "'f config \<Rightarrow> 'f \<Rightarrow> int \<Rightarrow> 'f \<Rightarrow> 'f" where
  "advance cfg pos off sp = f_add cfg pos (f_mul cfg (f_of_int cfg off) sp)"

text \<open>The directions kept by the search loop of \<open>updateCars\<close>, in increasing order.\<close>

definition possibleDirs :: "'f config \<Rightarrow> 'f sim \<Rightarrow> 'f Car \<Rightarrow> int list" where
  "possibleDirs cfg s car =
     filter (\<lambda>d. d \<noteq> (direction car + 2) mod 4
                \<and> isValidCell cfg (f_trunc cfg (car_x car) + dx d) (f_trunc cfg (car_y car) + dy d)
                \<and> grid s (f_trunc cfg (car_x car) + dx d, f_trunc cfg (car_y car) + dy d) = ROAD)
       [0, 1, 2, 3]"

text \<open>The test that sends a car into the search: the cell straight ahead is no road.\<close>

definition blocked :: "'f config \<Rightarrow> 'f sim \<Rightarrow> 'f Car \<Rightarrow> bool" where
  "blocked cfg s car =
     (let nextX = advance cfg (car_x car) (dx (direction car)) (speed car);
          nextY = advance cfg (car_y car) (dy (direction car)) (speed car)
      in \<not> isValidCell cfg (f_trunc cfg nextX) (f_trunc cfg nextY)
         \<or> grid s (f_trunc cfg nextX, f_trunc cfg nextY) \<noteq> ROAD)"

text \<open>The body of the loop over the cars; only the generator position changes in the state.\<close>

definition updateCar :: "'f config \<Rightarrow> 'f Car \<Rightarrow> 'f sim \<Rightarrow> 'f Car \<times> 'f sim" where
  "updateCar cfg car s =
     (if blocked cfg s car then
        (if possibleDirs cfg s car \<noteq> [] then
           case uniform_int 0 (int (length (possibleDirs cfg s car)) - 1) s of (k, s1) \<Rightarrow>
           let d = possibleDirs cfg s car ! nat k
           in (car\<lparr>direction := d,
                    car_x := advance cfg (car_x car) (dx d) (speed car),
                    car_y := advance cfg (car_y car) (dy d) (speed car)\<rparr>, s1)
         else
           case uniform_int 0 (int (length (roads s)) - 1) s of (ri, s1) \<Rightarrow>
           case roads s1 ! nat ri of (newX, newY) \<Rightarrow>
           case uniform_int 0 3 s1 of (d, s2) \<Rightarrow>
           (car\<lparr>roadIndex := ri, car_x := f_of_int cfg newX, car_y := f_of_int cfg newY,
                 direction := d\<rparr>, s2))
      else
        (car\<lparr>car_x := advance cfg (car_x car) (dx (direction car)) (speed car),
              car_y := advance cfg (car_y car) (dy (direction car)) (speed car)\<rparr>, s))"

fun moveCars :: "'f config \<Rightarrow> 'f Car list \<Rightarrow> 'f sim \<Rightarrow> 'f Car list \<times> 'f sim" where
  "moveCars cfg [] s = ([], s)"
| "moveCars cfg (car # rest) s =
     (case updateCar cfg car s of (car', s1) \<Rightarrow>
      case moveCars cfg rest s1 of (rest', s2) \<Rightarrow> (car' # rest', s2))"

definition updateCars :: "'f config \<Rightarrow> 'f sim \<Rightarrow> 'f sim" where
  "updateCars cfg s =
     (if roads s = [] then s
      else
        case moveCars cfg (cars s) s of (cs, s1) \<Rightarrow>
        let s2 = s1\<lparr>cars := cs\<rparr> in
        case gen_next s2 of (r, s3) \<Rightarrow>
        if r mod 100 < 5 \<and> length (cars s3) < length (roads s3) div 5
        then addRandomCar cfg s3 else s3)"

subsection \<open>Terrain generator\<close>

definition claimWater :: "'f config \<Rightarrow> int \<times> int \<Rightarrow> 'f sim \<Rightarrow> 'f sim" where
  "claimWater cfg p s =
     (if isValidCell cfg (fst p) (snd p) \<and> grid s p = EMPTY
      then s\<lparr>grid := (grid s)(p := WATER), waterCells := waterCells s @ [p]\<rparr>
      else s)"

definition stampWater :: "'f config \<Rightarrow> int \<Rightarrow> int \<Rightarrow> 'f sim \<Rightarrow> 'f sim" where
  "stampWater cfg curX curY s =
     fold (claimWater cfg)
       (concat (map (\<lambda>ox. map (\<lambda>oy. (curX + ox, curY + oy)) [-1, 0, 1]) [-1, 0, 1])) s"

text \<open>
  \<open>dir = (dir + (gen() % 3 - 1)) % 4\<close>: the generator's result type is unsigned, so the
  sum is computed in unsigned arithmetic and wraps; the remainder is then in \<open>0..3\<close>, and
  the test \<open>dir < 0\<close> that follows never fires. The word length is that of
  \<open>uint_fast32_t\<close> (64 bits here; 32 bits give the same remainders).
\<close>

definition turn :: "int \<Rightarrow> int \<Rightarrow> int" where
  "turn dir r =
     (let d = uint (((word_of_int dir :: 64 word) + (word_of_int (r mod 3) - 1)) mod 4)
      in if d < 0 then d + 4 else d)"

fun river :: "'f config \<Rightarrow> nat \<Rightarrow> int \<Rightarrow> int \<Rightarrow> int \<Rightarrow> 'f sim \<Rightarrow> 'f sim" where
  "river cfg 0 dir curX curY s = s"
| "river cfg (Suc n) dir curX curY s =
     (case gen_next s of (r, s1) \<Rightarrow>
      case (if r mod 5 = 0
            then (case gen_next s1 of (r2, s2) \<Rightarrow> (turn dir r2, s2))
            else (dir, s1)) of (dir', s3) \<Rightarrow>
      let s4 = stampWater cfg curX curY s3;
          curX' = curX + dx dir';
          curY' = curY + dy dir'
      in if \<not> isValidCell cfg curX' curY' then s4
         else river cfg n dir' curX' curY' s4)"

text \<open>The loop over the four neighbours that re-enqueues each with the given chance.\<close>

definition expandFrontier ::
  "int \<Rightarrow> int \<times> int \<Rightarrow> (int \<times> int) list \<Rightarrow> 'f sim \<Rightarrow> (int \<times> int) list \<times> 'f sim" where
  "expandFrontier chance p queue s =
     fold (\<lambda>d (q, s0). case uniform_int 0 100 s0 of (r, s') \<Rightarrow>
             (if r < chance then q @ [(fst p + dx d, snd p + dy d)] else q, s'))
       [0, 1, 2, 3] (queue, s)"

fun lake :: "'f config \<Rightarrow> (int \<times> int) list \<Rightarrow> nat \<Rightarrow> 'f sim \<Rightarrow> 'f sim" where
  "lake cfg [] n s = s"
| "lake cfg (p # queue) 0 s = s"
| "lake cfg (p # queue) (Suc n) s =
     (if \<not> isValidCell cfg (fst p) (snd p) \<or> grid s p \<noteq> EMPTY
      then lake cfg queue (Suc n) s
      else
        let s1 = s\<lparr>grid := (grid s)(p := WATER), waterCells := waterCells s @ [p]\<rparr>
        in case expandFrontier 70 p queue s1 of (queue', s2) \<Rightarrow> lake cfg queue' n s2)"

definition waterBody :: "'f config \<Rightarrow> 'f sim \<Rightarrow> 'f sim" where
  "waterBody cfg s =
     (case uniform_int 5 (GRID_WIDTH cfg - 5) s of (startX, s1) \<Rightarrow>
      case uniform_int 5 (GRID_HEIGHT cfg - 5) s1 of (startY, s2) \<Rightarrow>
      case uniform_int 0 1 s2 of (kind, s3) \<Rightarrow>
      if kind = 0 then
        (case gen_next s3 of (r1, s4) \<Rightarrow>
         case gen_next s4 of (r2, s5) \<Rightarrow>
         river cfg (nat (15 + r1 mod 20)) (r2 mod 4) startX startY s5)
      else
        (case uniform_int 20 40 s3 of (sz, s4) \<Rightarrow>
         lake cfg [(startX, startY)] (nat sz) s4))"

fun forest :: "'f config \<Rightarrow> (int \<times> int) list \<Rightarrow> nat \<Rightarrow> 'f sim \<Rightarrow> 'f sim" where
  "forest cfg [] n s = s"
| "forest cfg (p # queue) 0 s = s"
| "forest cfg (p # queue) (Suc n) s =
     (if \<not> isValidCell cfg (fst p) (snd p) \<or> grid s p \<noteq> EMPTY
      then forest cfg queue (Suc n) s
      else
        case gen_next s of (r, s0) \<Rightarrow>
        let s1 = s0\<lparr>grid := (grid s0)(p := FOREST),
                    buildings := (buildings s0)(p := (buildings s0 p)
                       \<lparr>btype := FOREST, variant := r mod 3\<rparr>)\<rparr>
        in case expandFrontier 60 p queue s1 of (queue', s2) \<Rightarrow> forest cfg queue' n s2)"

definition forestPatch :: "'f config \<Rightarrow> 'f sim \<Rightarrow> 'f sim" where
  "forestPatch cfg s =
     (case uniform_int 5 (GRID_WIDTH cfg - 5) s of (startX, s1) \<Rightarrow>
      case uniform_int 5 (GRID_HEIGHT cfg - 5) s1 of (startY, s2) \<Rightarrow>
      case uniform_int 10 30 s2 of (sz, s3) \<Rightarrow>
      forest cfg [(startX, startY)] (nat sz) s3)"

definition claimFarm :: "'f config \<Rightarrow> int \<times> int \<Rightarrow> 'f sim \<Rightarrow> 'f sim" where
  "claimFarm cfg p s =
     (if isValidCell cfg (fst p) (snd p) \<and> grid s p = EMPTY
      then case gen_next s of (r, s0) \<Rightarrow>
           s0\<lparr>grid := (grid s0)(p := FARM),
              buildings := (buildings s0)(p := (buildings s0 p)
                 \<lparr>btype := FARM, variant := r mod 3\<rparr>)\<rparr>
      else s)"

definition farmPatch :: "'f config \<Rightarrow> 'f sim \<Rightarrow> 'f sim" where
  "farmPatch cfg s =
     (case uniform_int 5 (GRID_WIDTH cfg - 5) s of (startX, s1) \<Rightarrow>
      case uniform_int 5 (GRID_HEIGHT cfg - 5) s1 of (startY, s2) \<Rightarrow>
      case uniform_int 5 10 s2 of (w, s3) \<Rightarrow>
      case uniform_int 5 10 s3 of (h, s4) \<Rightarrow>
      fold (claimFarm cfg)
        (concat (map (\<lambda>x. map (\<lambda>y. (startX + x, startY + y)) [0..h - 1]) [0..w - 1])) s4)"

definition generateTerrain :: "'f config \<Rightarrow> 'f sim \<Rightarrow> 'f sim" where
  "generateTerrain cfg s =
     (case uniform_int 1 3 s of (waterBodies, s1) \<Rightarrow>
      let s2 = (waterBody cfg ^^ nat waterBodies) s1 in
      case uniform_int 2 5 s2 of (forestCount, s3) \<Rightarrow>
      let s4 = (forestPatch cfg ^^ nat forestCount) s3 in
      case uniform_int 1 3 s4 of (farmCount, s5) \<Rightarrow>
      (farmPatch cfg ^^ nat farmCount) s5)"

subsection \<open>Road network builder\<close>

definition claimRoadIfEmpty :: "int \<times> int \<Rightarrow> 'f sim \<Rightarrow> 'f sim" where
  "claimRoadIfEmpty p s = (if grid s p = EMPTY then claimRoad p s else s)"

fun branchWalk :: "'f config \<Rightarrow> nat \<Rightarrow> int \<Rightarrow> int \<Rightarrow> int \<Rightarrow> 'f sim \<Rightarrow> 'f sim" where
  "branchWalk cfg 0 d x y s = s"
| "branchWalk cfg (Suc n) d x y s =
     (let x' = x + dx d; y' = y + dy d
      in if isValidCell cfg x' y' \<and> grid s (x', y') = EMPTY
         then branchWalk cfg n d x' y' (claimRoad (x', y') s)
         else s)"

definition branchRoad :: "'f config \<Rightarrow> nat \<Rightarrow> 'f sim \<Rightarrow> 'f sim" where
  "branchRoad cfg i s =
     (let mainRoadY = GRID_HEIGHT cfg div 2; mainRoadX = GRID_WIDTH cfg div 2 in
      case (if i mod 2 = 0
            then (case uniform_int 0 (GRID_WIDTH cfg - 1) s of (x, s') \<Rightarrow> ((x, mainRoadY), s'))
            else (case uniform_int 0 (GRID_HEIGHT cfg - 1) s of (y, s') \<Rightarrow> ((mainRoadX, y), s')))
      of (start, s1) \<Rightarrow>
      case uniform_int 0 3 s1 of (d, s2) \<Rightarrow>
      case uniform_int 5 15 s2 of (len, s3) \<Rightarrow>
      branchWalk cfg (nat len) d (fst start) (snd start) s3)"

definition generateInitialRoads :: "'f config \<Rightarrow> 'f sim \<Rightarrow> 'f sim" where
  "generateInitialRoads cfg s =
     (let mainRoadY = GRID_HEIGHT cfg div 2;
          s1 = fold (\<lambda>x. claimRoadIfEmpty (x, mainRoadY)) [0..GRID_WIDTH cfg - 1] s;
          mainRoadX = GRID_WIDTH cfg div 2;
          s2 = fold (\<lambda>y. claimRoadIfEmpty (mainRoadX, y)) [0..GRID_HEIGHT cfg - 1] s1;
          s3 = fold (branchRoad cfg) [0..<INITIAL_ROADS cfg] s2
      in (addRandomCar cfg ^^ 15) s3)"

subsection \<open>Initialization and the simulation clock\<close>

definition emptyBuilding :: Building where
  "emptyBuilding = \<lparr>btype = EMPTY, density = 0, age = 0, style = BASIC, variant = 0,
                    hasTree = False, hasCar = False\<rparr>"

text \<open>The globals as the program starts, with the generator's stream \<open>g\<close>.\<close>

definition startup :: "(nat \<Rightarrow> int) \<Rightarrow> 'f sim" where
  "startup g = \<lparr>grid = (\<lambda>p. EMPTY), buildings = (\<lambda>p. emptyBuilding), cars = [], roads = [],
                waterCells = [], currentStep = 0, gen = g, drawn = 0\<rparr>"

definition initializeGrid :: "'f config \<Rightarrow> 'f sim \<Rightarrow> 'f sim" where
  "initializeGrid cfg s =
     generateInitialRoads cfg
       (generateTerrain cfg (s\<lparr>grid := (\<lambda>p. EMPTY), buildings := (\<lambda>p. emptyBuilding)\<rparr>))"

text \<open>
  \<open>simulationStep\<close>; the water animation phase it advances first depends on the wall
  clock only and is read by the renderer only, and is left out.
\<close>

definition simulationStep :: "'f config \<Rightarrow> 'f sim \<Rightarrow> 'f sim" where
  "simulationStep cfg s =
     (let s1 = updateCars cfg s;
          s2 = (if currentStep s1 mod 3 = 0 then growCity cfg s1 else s1)
      in s2\<lparr>currentStep := currentStep s2 + 1\<rparr>)"

text \<open>The state after initialization and \<open>n\<close> ticks, as \<open>main\<close> produces it.\<close>

definition run :: "'f config \<Rightarrow> (nat \<Rightarrow> int) \<Rightarrow> nat \<Rightarrow> 'f sim" where
  "run cfg g n = (simulationStep cfg ^^ n) (initializeGrid cfg (startup g))"


section \<open>Properties and scenarios\<close>

subsection \<open>Building type rule, in the specification's words\<close>

text \<open>
  Some cell of type \<open>t\<close> lies within the given radius of \<open>(x, y)\<close>: in the square of side
  \<open>2 * radius + 1\<close> around it, inside the grid, the centre excluded.
\<close>

definition typeWithin :: "'f config \<Rightarrow> 'f sim \<Rightarrow> int \<Rightarrow> int \<Rightarrow> CellType \<Rightarrow> int \<Rightarrow> bool" where
  "typeWithin cfg s x y t radius \<longleftrightarrow>
     (\<exists>i j. \<bar>i\<bar> \<le> radius \<and> \<bar>j\<bar> \<le> radius \<and> (i, j) \<noteq> (0, 0)
            \<and> isValidCell cfg (x + i) (y + j) \<and> grid s (x + i, y + j) = t)"

text \<open>
  The rule as the specification words it: the base type from the roll, then the three
  overrides in order, the last one winning.
\<close>

definition specType :: "int \<Rightarrow> bool \<Rightarrow> bool \<Rightarrow> int \<Rightarrow> CellType" where
  "specType r nearWater nearGreen step =
     (let base = (if r < 60 then RESIDENTIAL else if r < 85 then COMMERCIAL else INDUSTRIAL);
          afterWater = (if nearWater \<and> r < 80 then RESIDENTIAL else base);
          afterGreen = (if nearGreen \<and> r < 75 then RESIDENTIAL else afterWater)
      in if r > 95 \<and> step > 50 then PARK else afterGreen)"

subsection \<open>Binary32 arithmetic\<close>

text \<open>
  The cars' coordinates and speeds are C \<open>float\<close>s: IEEE binary32. A finite binary32
  value is a multiple \<open>m * 2 ^ k\<close> of a power of two, with \<open>\<bar>m\<bar> < 2 ^ 24\<close> and
  \<open>k \<ge> - 149\<close>, and an arithmetic operation returns the exact result rounded to the
  nearest such value, ties to the even multiple. The model has the finite values as
  rationals. It does not bound the exponent from above: where the machine would
  return an infinity (beyond about \<open>3.4 * 10 ^ 38\<close>) the model goes on with the rounded
  value. Every float of the program is a car's coordinate or speed or the product of a
  speed with \<open>-1\<close>, \<open>0\<close> or \<open>1\<close>; the coordinates are followed only while they
  truncate to a cell of the grid.
\<close>

definition roundHalfEven :: "rat \<Rightarrow> int" where
  "roundHalfEven x =
     (let f = \<lfloor>x\<rfloor>
      in if x - of_int f < 1 / 2 then f
         else if 1 / 2 < x - of_int f then f + 1
         else if even f then f else f + 1)"

text \<open>
  The significand and the exponent of a non-negative value: \<open>normalise x k\<close> halves or
  doubles \<open>x\<close> until it lies between \<open>2 ^ 23\<close> and \<open>2 ^ 24\<close> or the exponent has reached
  that of the subnormal numbers, and keeps \<open>x * 2 ^ k\<close> as it is.
\<close>

function normalise :: "rat \<Rightarrow> int \<Rightarrow> rat \<times> int" where
  "normalise x k =
     (if 2 ^ 24 \<le> x then normalise (x / 2) (k + 1)
      else if x < 2 ^ 23 \<and> - 149 < k then normalise (2 * x) (k - 1)
      else (x, k))"
  by pat_completeness auto
termination
proof (relation "measure (\<lambda>(x, k). (if 2 ^ 24 \<le> x then nat \<lfloor>x\<rfloor> else 0) + nat (k + 149))")
  show "wf (measure (\<lambda>(x, k). (if 2 ^ 24 \<le> x then nat \<lfloor>x\<rfloor> else 0) + nat (k + 149)))"
    by simp
next
  fix x :: rat and k :: int
  assume a: "2 ^ 24 \<le> x"
  have "x / 2 \<le> x - 2" using a by simp
  then have "\<lfloor>x / 2\<rfloor> \<le> \<lfloor>x - 2\<rfloor>" by (rule floor_mono)
  then have "\<lfloor>x / 2\<rfloor> + 2 \<le> \<lfloor>x\<rfloor>" by simp
  moreover have "0 \<le> \<lfloor>x / 2\<rfloor>" using a by simp
  moreover have "2 ^ 24 \<le> \<lfloor>x\<rfloor>" using a by (simp add: le_floor_iff)
  ultimately show "((x / 2, k + 1), x, k)
    \<in> measure (\<lambda>(x, k). (if 2 ^ 24 \<le> x then nat \<lfloor>x\<rfloor> else 0) + nat (k + 149))"
    by (simp; linarith)
next
  fix x :: rat and k :: int
  assume "\<not> 2 ^ 24 \<le> x" "x < 2 ^ 23 \<and> - 149 < k"
  then show "((2 * x, k - 1), x, k)
    \<in> measure (\<lambda>(x, k). (if 2 ^ 24 \<le> x then nat \<lfloor>x\<rfloor> else 0) + nat (k + 149))"
    by auto
qed

declare normalise.simps [simp del]

text \<open>Rounding to the nearest binary32 value.\<close>

definition round32 :: "rat \<Rightarrow> rat" where
  "round32 q =
     (case normalise \<bar>q\<bar> 0 of (x, k) \<Rightarrow> sgn q * of_int (roundHalfEven x) * 2 powi k)"

typedef binary32 = "{q. round32 q = q}"
  morphisms rat_of_binary32 Abs_binary32
  by (rule exI[of _ 0]) (simp add: round32_def split: prod.split)

definition b32 :: "rat \<Rightarrow> binary32" where
  "b32 q = Abs_binary32 (round32 q)"

definition of_int32 :: "int \<Rightarrow> binary32" where
  "of_int32 i = b32 (of_int i)"

definition add32 :: "binary32 \<Rightarrow> binary32 \<Rightarrow> binary32" where
  "add32 a b = b32 (rat_of_binary32 a + rat_of_binary32 b)"

definition sub32 :: "binary32 \<Rightarrow> binary32 \<Rightarrow> binary32" where
  "sub32 a b = b32 (rat_of_binary32 a - rat_of_binary32 b)"

definition mul32 :: "binary32 \<Rightarrow> binary32 \<Rightarrow> binary32" where
  "mul32 a b = b32 (rat_of_binary32 a * rat_of_binary32 b)"

definition div32 :: "binary32 \<Rightarrow> binary32 \<Rightarrow> binary32" where
  "div32 a b = b32 (rat_of_binary32 a / rat_of_binary32 b)"

text \<open>\<open>static_cast<int>\<close> truncates towards zero.\<close>

definition truncate_rat :: "rat \<Rightarrow> int" where
  "truncate_rat q = (if q \<ge> 0 then \<lfloor>q\<rfloor> else - \<lfloor>- q\<rfloor>)"

definition trunc32 :: "binary32 \<Rightarrow> int" where
  "trunc32 a = truncate_rat (rat_of_binary32 a)"

text \<open>
  \<open>std::uniform_real_distribution<float>(0.05f, 0.2f)\<close>, as libstdc++ computes it from
  one 32-bit output \<open>r\<close> of the generator: \<open>r\<close> converted to float and divided by
  \<open>2 ^ 32\<close>, replaced by the largest float below 1 should the quotient reach 1, then
  scaled by \<open>0.2f - 0.05f\<close> and added to \<open>0.05f\<close>.
\<close>

definition canonical32 :: "int \<Rightarrow> binary32" where
  "canonical32 r =
     (let c = div32 (of_int32 r) (b32 (2 ^ 32))
      in if 1 \<le> rat_of_binary32 c then b32 (1 - 1 / 2 ^ 24) else c)"

definition speed32 :: "int \<Rightarrow> binary32" where
  "speed32 r =
     add32 (mul32 (canonical32 (r mod 2 ^ 32)) (sub32 (b32 (1 / 5)) (b32 (1 / 20))))
       (b32 (1 / 20))"

subsection \<open>Concrete configurations\<close>

text \<open>
  The configuration of the program for a grid of the given dimensions; \<open>cityConfig\<close>
  has the program's own.
\<close>

definition binary32Config :: "int \<Rightarrow> int \<Rightarrow> binary32 config" where
  "binary32Config w h =
     \<lparr>GRID_WIDTH = w, GRID_HEIGHT = h, INITIAL_ROADS = 30,
      f_of_int = of_int32, f_add = add32, f_mul = mul32, f_trunc = trunc32,
      f_speed = speed32\<rparr>"

definition cityConfig :: "binary32 config" where
  "cityConfig = binary32Config 80 45"

text \<open>
  A stream for which the terrain stays small: every draw yields 71, so that every
  terrain feature starts at \<open>(5, 40)\<close> and no lake or forest spreads.
\<close>

definition steadyStream :: "nat \<Rightarrow> int" where
  "steadyStream n = 71"

text \<open>Under that stream the left end of the horizontal arterial is still free.\<close>

definition corridorFree :: "'f sim \<Rightarrow> bool" where
  "corridorFree s \<longleftrightarrow> gen s = steadyStream \<and> grid s (0, 22) = EMPTY"

text \<open>A state whose grid and road sequence are given, everything else as at startup.\<close>

definition stateOf ::
  "(int \<times> int \<Rightarrow> CellType) \<Rightarrow> (int \<times> int) list \<Rightarrow> int \<Rightarrow> (nat \<Rightarrow> int) \<Rightarrow> binary32 sim" where
  "stateOf g rs step stream =
     \<lparr>grid = g, buildings = (\<lambda>p. emptyBuilding), cars = [], roads = rs, waterCells = [],
      currentStep = step, gen = stream, drawn = 0\<rparr>"

text \<open>A spot at \<open>(1, 1)\<close> with water at \<open>(2, 2)\<close>; every draw yields 70.\<close>

definition lakesideState :: "binary32 sim" where
  "lakesideState = stateOf ((\<lambda>p. EMPTY)((2, 2) := WATER)) [] 0 (\<lambda>n. 70)"

subsection \<open>Invariants and transition properties\<close>

text \<open>The road sequence and the Road tags of the grid agree, cell by cell of the grid.\<close>

definition roadsTagged :: "'f config \<Rightarrow> 'f sim \<Rightarrow> bool" where
  "roadsTagged cfg s \<longleftrightarrow>
     (\<forall>p\<in>set (roads s). grid s p = ROAD)
     \<and> (\<forall>x y. isValidCell cfg x y \<and> grid s (x, y) = ROAD \<longrightarrow> (x, y) \<in> set (roads s))"

text \<open>The same, for every coordinate pair: what the routines preserve.\<close>

definition roadsExact :: "'f sim \<Rightarrow> bool" where
  "roadsExact s \<longleftrightarrow> set (roads s) = {p. grid s p = ROAD}"

definition roadsValid :: "'f config \<Rightarrow> 'f sim \<Rightarrow> bool" where
  "roadsValid cfg s \<longleftrightarrow> (\<forall>p\<in>set (roads s). isValidCell cfg (fst p) (snd p))"

definition densityBounded :: "'f sim \<Rightarrow> bool" where
  "densityBounded s \<longleftrightarrow> (\<forall>p. density (buildings s p) \<le> 3)"

text \<open>Ages lie between 0 and the step counter, which is not negative.\<close>

definition agesBounded :: "'f sim \<Rightarrow> bool" where
  "agesBounded s \<longleftrightarrow>
     0 \<le> currentStep s
     \<and> (\<forall>p. 0 \<le> age (buildings s p) \<and> age (buildings s p) \<le> currentStep s)"

definition waterTagged :: "'f sim \<Rightarrow> bool" where
  "waterTagged s \<longleftrightarrow> (\<forall>p\<in>set (waterCells s). grid s p = WATER)"

text \<open>
  From \<open>s\<close> to \<open>s'\<close> the water-cell sequence is untouched and every cell that is not
  Empty keeps its tag and its record's type, and its age and density do not decrease.
\<close>

definition settled :: "'f sim \<Rightarrow> 'f sim \<Rightarrow> bool" where
  "settled s s' \<longleftrightarrow>
     waterCells s' = waterCells s
     \<and> (\<forall>p. grid s p \<noteq> EMPTY \<longrightarrow>
           grid s' p = grid s p
           \<and> btype (buildings s' p) = btype (buildings s p)
           \<and> age (buildings s p) \<le> age (buildings s' p)
           \<and> density (buildings s p) \<le> density (buildings s' p))"

text \<open>Only the generator has advanced from \<open>s\<close> to \<open>s'\<close>.\<close>

definition redrawn :: "'f sim \<Rightarrow> 'f sim \<Rightarrow> bool" where
  "redrawn s s' \<longleftrightarrow> (\<exists>n. s' = s\<lparr>drawn := n\<rparr>)"

text \<open>Only the generator and the cars have changed from \<open>s\<close> to \<open>s'\<close>.\<close>

definition retrafficked :: "'f sim \<Rightarrow> 'f sim \<Rightarrow> bool" where
  "retrafficked s s' \<longleftrightarrow> (\<exists>cs n. s' = s\<lparr>cars := cs, drawn := n\<rparr>)"

text \<open>What holds while the terrain is generated: no roads or cars yet, no cell aged.\<close>

definition terrainOnly :: "'f sim \<Rightarrow> bool" where
  "terrainOnly s \<longleftrightarrow>
     roads s = [] \<and> cars s = [] \<and> currentStep s = 0
     \<and> (\<forall>p. grid s p \<noteq> ROAD)
     \<and> (\<forall>p. density (buildings s p) = 0 \<and> age (buildings s p) = 0)
     \<and> waterTagged s"

text \<open>The state between terrain generation and road building in \<open>initializeGrid\<close>.\<close>

definition terrainState :: "'f config \<Rightarrow> (nat \<Rightarrow> int) \<Rightarrow> 'f sim" where
  "terrainState cfg g =
     generateTerrain cfg ((startup g)\<lparr>grid := (\<lambda>p. EMPTY), buildings := (\<lambda>p. emptyBuilding)\<rparr>)"

subsection \<open>Cars\<close>

text \<open>The cell a car is drawn in, by truncation, is inside the grid and a road.\<close>

definition carOnRoad :: "'f config \<Rightarrow> 'f sim \<Rightarrow> 'f Car \<Rightarrow> bool" where
  "carOnRoad cfg s car \<longleftrightarrow>
     isValidCell cfg (f_trunc cfg (car_x car)) (f_trunc cfg (car_y car))
     \<and> grid s (f_trunc cfg (car_x car), f_trunc cfg (car_y car)) = ROAD"

definition carsOnRoad :: "'f config \<Rightarrow> 'f sim \<Rightarrow> bool" where
  "carsOnRoad cfg s \<longleftrightarrow> (\<forall>car\<in>set (cars s). carOnRoad cfg s car)"

text \<open>
  What the traffic code needs of the float operations, on the coordinates of the grid:
  converting a cell coordinate to float and back is exact, and one step of a drawn
  speed along an offset \<open>-1\<close>, \<open>0\<close> or \<open>1\<close> leaves the truncated coordinate or moves it
  by that offset.
\<close>

definition floatsSound :: "'f config \<Rightarrow> bool" where
  "floatsSound cfg \<longleftrightarrow>
     (\<forall>n. 0 \<le> n \<and> n < max (GRID_WIDTH cfg) (GRID_HEIGHT cfg)
          \<longrightarrow> f_trunc cfg (f_of_int cfg n) = n)
     \<and> (\<forall>pos r off. 0 \<le> f_trunc cfg pos \<and> f_trunc cfg pos < max (GRID_WIDTH cfg) (GRID_HEIGHT cfg)
          \<and> off \<in> {-1, 0, 1}
          \<longrightarrow> f_trunc cfg (advance cfg pos off (f_speed cfg r))
                \<in> {f_trunc cfg pos, f_trunc cfg pos + off})"

definition carSound :: "'f config \<Rightarrow> 'f sim \<Rightarrow> 'f Car \<Rightarrow> bool" where
  "carSound cfg s car \<longleftrightarrow> carOnRoad cfg s car \<and> speed car \<in> range (f_speed cfg)"

definition trafficSound :: "'f config \<Rightarrow> 'f sim \<Rightarrow> bool" where
  "trafficSound cfg s \<longleftrightarrow>
     roadsValid cfg s \<and> (\<forall>car\<in>set (cars s). carSound cfg s car)"

subsection \<open>The clock's two kinds of tick\<close>

definition tickWithExtension :: "'f config \<Rightarrow> 'f sim \<Rightarrow> 'f sim" where
  "tickWithExtension cfg s =
     (let s1 = updateCars cfg s;
          s2 = extendRoads cfg (matureBuildings cfg (placeBuildings cfg s1))
      in s2\<lparr>currentStep := currentStep s2 + 1\<rparr>)"

definition tickWithoutExtension :: "'f config \<Rightarrow> 'f sim \<Rightarrow> 'f sim" where
  "tickWithoutExtension cfg s =
     (let s1 = updateCars cfg s;
          s2 = (if currentStep s1 mod 3 = 0
                then matureBuildings cfg (placeBuildings cfg s1) else s1)
      in s2\<lparr>currentStep := currentStep s2 + 1\<rparr>)"

subsection \<open>Scenario states\<close>

text \<open>
  Tick 10 of a town of one road cell \<open>(0, 0)\<close> and one house at \<open>(1, 1)\<close>: the cells
  \<open>(1, 0)\<close> and \<open>(0, 1)\<close> are Empty, next to the house and next to the road.
\<close>

definition hamletState :: "binary32 sim" where
  "hamletState =
     stateOf ((\<lambda>p. EMPTY)((0, 0) := ROAD, (1, 1) := RESIDENTIAL)) [(0, 0)] 10 (\<lambda>n. 50)"

text \<open>No roads, one Forest cell.\<close>

definition woodState :: "binary32 sim" where
  "woodState = stateOf ((\<lambda>p. EMPTY)((0, 0) := FOREST)) [] 0 (\<lambda>n. 0)"

text \<open>
  Tick 51: the Empty corner \<open>(0, 0)\<close> touches the road cells \<open>(1, 0)\<close> and \<open>(0, 1)\<close>, whose
  other neighbours are Water. The stream rolls 10 for the first placement and 90 for
  the second.
\<close>

definition cornerState :: "binary32 sim" where
  "cornerState =
     stateOf ((\<lambda>p. EMPTY)((1, 0) := ROAD, (0, 1) := ROAD,
                           (1, 1) := WATER, (2, 0) := WATER, (0, 2) := WATER))
       [(1, 0), (0, 1)] 51
       (\<lambda>n. if n = 1 then 10 else if n = 4 then 50 else if n = 5 then 90 else 0)"

text \<open>The corner scenario after the shuffle's one draw, and after the first placement.\<close>

definition cornerShuffled :: "binary32 sim" where
  "cornerShuffled = cornerState\<lparr>drawn := 1\<rparr>"

definition cornerPlacedOnce :: "binary32 sim" where
  "cornerPlacedOnce = placeBuilding cityConfig (0, 0) cornerShuffled"

text \<open>The 10 by 10 scenario: one horizontal road at row 5, nothing else, step 0.\<close>

definition rowRoadState :: "(nat \<Rightarrow> int) \<Rightarrow> nat \<Rightarrow> 'f Car list \<Rightarrow> 'f sim" where
  "rowRoadState stream k cs =
     \<lparr>grid = (\<lambda>p. if snd p = 5 \<and> 0 \<le> fst p \<and> fst p < 10 then ROAD else EMPTY),
      buildings = (\<lambda>p. emptyBuilding), cars = cs,
      roads = map (\<lambda>x. (x, 5)) [0..9], waterCells = [],
      currentStep = 0, gen = stream, drawn = k\<rparr>"

definition rowRoadStart :: "binary32 sim" where
  "rowRoadStart = rowRoadState (\<lambda>i. 7 * int i) 0 []"

definition adjacent4 :: "int \<times> int \<Rightarrow> int \<times> int \<Rightarrow> bool" where
  "adjacent4 p q \<longleftrightarrow> \<bar>fst p - fst q\<bar> + \<bar>snd p - snd q\<bar> = 1"

definition isBuilding :: "CellType \<Rightarrow> bool" where
  "isBuilding t \<longleftrightarrow> t = RESIDENTIAL \<or> t = COMMERCIAL \<or> t = INDUSTRIAL \<or> t = PARK"


section \<open>Proofs\<close>

subsection \<open>Facts about the random draws\<close>

lemmas rng_defs = uniform_int_def uniform_speed_def gen_next_def

lemma uniform_int_range:
  "a \<le> b \<Longrightarrow> a \<le> fst (uniform_int a b s) \<and> fst (uniform_int a b s) \<le> b"
proof -
  assume "a \<le> b"
  then have pos: "0 < b - a + 1" by simp
  have "0 \<le> (gen s (drawn s) mod 2 ^ 32) mod (b - a + 1)"
    using pos by (rule pos_mod_sign)
  moreover have "(gen s (drawn s) mod 2 ^ 32) mod (b - a + 1) < b - a + 1"
    using pos by (rule pos_mod_bound)
  ultimately show ?thesis by (simp add: rng_defs)
qed

lemma swap_at_mset:
  "i < length xs \<Longrightarrow> j < length xs \<Longrightarrow> mset (swap_at i j xs) = mset xs"
  unfolding swap_at_def by (simp add: mset_swap)

lemma swap_at_length [simp]: "length (swap_at i j xs) = length xs"
  by (simp add: swap_at_def)

lemma shuffle_from_frame:
  "i < length xs \<Longrightarrow> shuffle_from i xs s = (ys, s') \<Longrightarrow>
     mset ys = mset xs \<and> (\<exists>n. s' = s\<lparr>drawn := n\<rparr>)"
proof (induction i arbitrary: xs s)
  case 0
  then show ?case by (auto intro: exI[of _ "drawn s"])
next
  case (Suc i)
  obtain j s1 where u: "uniform_int 0 (int (Suc i)) s = (j, s1)" by fastforce
  have rng: "0 \<le> j \<and> j \<le> int (Suc i)"
    using uniform_int_range[of 0 "int (Suc i)" s] u by simp
  have s1: "s1 = s\<lparr>drawn := Suc (drawn s)\<rparr>" using u by (simp add: rng_defs)
  from Suc.prems u have rec: "shuffle_from i (swap_at (Suc i) (nat j) xs) s1 = (ys, s')"
    by simp
  have "nat j < length xs" using rng Suc.prems(1) by linarith
  then have m: "mset (swap_at (Suc i) (nat j) xs) = mset xs"
    using Suc.prems(1) by (simp add: swap_at_mset)
  from Suc.IH[OF _ rec] Suc.prems(1)
  have "mset ys = mset (swap_at (Suc i) (nat j) xs) \<and> (\<exists>n. s' = s1\<lparr>drawn := n\<rparr>)" by simp
  with m s1 show ?case by auto
qed

lemma shuffle_frame:
  "shuffle xs s = (ys, s') \<Longrightarrow> mset ys = mset xs \<and> (\<exists>n. s' = s\<lparr>drawn := n\<rparr>)"
proof (cases xs)
  case Nil
  assume "shuffle xs s = (ys, s')"
  with Nil show ?thesis by (auto simp: shuffle_def intro: exI[of _ "drawn s"])
next
  case (Cons a list)
  assume "shuffle xs s = (ys, s')"
  then show ?thesis unfolding shuffle_def using Cons
    by (intro shuffle_from_frame[of "length xs - 1"]) simp_all
qed

subsection \<open>Facts about the grid helpers\<close>

lemma dx_dy_cardinal:
  "d \<in> {0, 1, 2, 3} \<Longrightarrow> (dx d = 0 \<and> (dy d = 1 \<or> dy d = -1)) \<or> (dy d = 0 \<and> (dx d = 1 \<or> dx d = -1))"
  by (auto simp: dx_def dy_def)

lemma countNeighborsOfTypeInRadius_cong:
  "grid s = grid s' \<Longrightarrow>
   countNeighborsOfTypeInRadius cfg s x y t r = countNeighborsOfTypeInRadius cfg s' x y t r"
  by (simp add: countNeighborsOfTypeInRadius_def cong: if_cong)

lemma chooseType_cong:
  "grid s = grid s' \<Longrightarrow> currentStep s = currentStep s' \<Longrightarrow>
   chooseType cfg s x y r = chooseType cfg s' x y r"
  unfolding chooseType_def
  by (simp only: countNeighborsOfTypeInRadius_cong[of s s'])

lemma chooseType_drawn [simp]:
  "chooseType cfg (s\<lparr>drawn := n\<rparr>) x y r = chooseType cfg s x y r"
  by (rule chooseType_cong) simp_all

lemma chooseType_cases:
  "chooseType cfg s x y r \<in> {RESIDENTIAL, COMMERCIAL, INDUSTRIAL, PARK}"
  by (simp add: chooseType_def Let_def)

lemma allCells_set:
  "set (allCells cfg) = {p. isValidCell cfg (fst p) (snd p)}"
  by (auto simp: allCells_def isValidCell_def)

lemma in_concat_filter_map:
  "p \<in> set (concat (map (\<lambda>r. filter Q (map (N r) ds)) rs))
     \<longleftrightarrow> Q p \<and> (\<exists>r\<in>set rs. \<exists>d\<in>set ds. p = N r d)"
  by auto

lemma buildingSpots_set:
  "p \<in> set (buildingSpots cfg s) \<longleftrightarrow>
     (isValidCell cfg (fst p) (snd p) \<and> grid s p = EMPTY)
     \<and> (\<exists>r\<in>set (roads s). \<exists>d\<in>set [0, 1, 2, 3]. p = (fst r + dx d, snd r + dy d))"
  unfolding buildingSpots_def
  by (rule in_concat_filter_map)

lemma in_concat_if_filter_map:
  "p \<in> set (concat (map (\<lambda>r. if B r then filter Q (map (N r) ds) else []) rs))
     \<longleftrightarrow> Q p \<and> (\<exists>r\<in>set rs. B r \<and> (\<exists>d\<in>set ds. p = N r d))"
  by auto

lemma roadSpots_set:
  "p \<in> set (roadSpots cfg s) \<longleftrightarrow>
     (isValidCell cfg (fst p) (snd p) \<and> grid s p = EMPTY \<and> nearRoad cfg s p)
     \<and> (\<exists>r\<in>set (allCells cfg). (grid s r \<noteq> EMPTY \<and> grid s r \<noteq> ROAD \<and> grid s r \<noteq> WATER)
           \<and> (\<exists>d\<in>set [0, 1, 2, 3]. p = (fst r + dx d, snd r + dy d)))"
  unfolding roadSpots_def
  by (rule in_concat_if_filter_map)

subsection \<open>What one placement and one maturation change\<close>

lemma placeBuilding_fields [simp]:
  "roads (placeBuilding cfg p s) = roads s"
  "cars (placeBuilding cfg p s) = cars s"
  "waterCells (placeBuilding cfg p s) = waterCells s"
  "currentStep (placeBuilding cfg p s) = currentStep s"
  "gen (placeBuilding cfg p s) = gen s"
  "grid (placeBuilding cfg p s)
     = (grid s)(p := chooseType cfg s (fst p) (snd p) (fst (uniform_int 0 100 s)))"
  "btype (buildings (placeBuilding cfg p s) p)
     = chooseType cfg s (fst p) (snd p) (fst (uniform_int 0 100 s))"
  "density (buildings (placeBuilding cfg p s) p) = 1"
  "age (buildings (placeBuilding cfg p s) p) = 0"
  by (simp_all add: placeBuilding_def Let_def rng_defs split: prod.splits)

lemma placeBuilding_other:
  "q \<noteq> p \<Longrightarrow> buildings (placeBuilding cfg p s) q = buildings s q"
  by (cases p) (auto simp add: placeBuilding_def Let_def rng_defs split: prod.splits)

lemma ageUp_fields [simp]:
  "roads (ageUp p s) = roads s"
  "cars (ageUp p s) = cars s"
  "waterCells (ageUp p s) = waterCells s"
  "currentStep (ageUp p s) = currentStep s"
  "gen (ageUp p s) = gen s"
  "grid (ageUp p s) = grid s"
  "btype (buildings (ageUp p s) q) = btype (buildings s q)"
  "density (buildings (ageUp p s) q) = density (buildings s q)"
  "age (buildings (ageUp p s) q) = (if q = p then age (buildings s q) + 1 else age (buildings s q))"
  by (simp_all add: ageUp_def)

lemma promote_fields [simp]:
  "roads (promote p s) = roads s"
  "cars (promote p s) = cars s"
  "waterCells (promote p s) = waterCells s"
  "currentStep (promote p s) = currentStep s"
  "gen (promote p s) = gen s"
  "grid (promote p s) = grid s"
  "btype (buildings (promote p s) q) = btype (buildings s q)"
  "age (buildings (promote p s) q) = age (buildings s q)"
  by (simp_all add: promote_def rng_defs)

lemma promote_density:
  "density (buildings s q) \<le> density (buildings (promote p s) q)"
  "density (buildings s q) \<le> 3 \<Longrightarrow> density (buildings (promote p s) q) \<le> 3"
  by (auto simp add: promote_def rng_defs)

lemma plantTree_fields [simp]:
  "roads (plantTree p s) = roads s"
  "cars (plantTree p s) = cars s"
  "waterCells (plantTree p s) = waterCells s"
  "currentStep (plantTree p s) = currentStep s"
  "gen (plantTree p s) = gen s"
  "grid (plantTree p s) = grid s"
  "btype (buildings (plantTree p s) q) = btype (buildings s q)"
  "age (buildings (plantTree p s) q) = age (buildings s q)"
  "density (buildings (plantTree p s) q) = density (buildings s q)"
  by (simp_all add: plantTree_def rng_defs)

lemma matureCell_fields [simp]:
  "roads (matureCell p s) = roads s"
  "cars (matureCell p s) = cars s"
  "waterCells (matureCell p s) = waterCells s"
  "currentStep (matureCell p s) = currentStep s"
  "gen (matureCell p s) = gen s"
  "grid (matureCell p s) = grid s"
  "btype (buildings (matureCell p s) q) = btype (buildings s q)"
  by (simp_all add: matureCell_def)

lemma matureCell_age:
  "age (buildings s q) \<le> age (buildings (matureCell p s) q)"
  "age (buildings (matureCell p s) q) \<le> age (buildings s q) + 1"
  by (simp_all add: matureCell_def)

lemma matureCell_density:
  "density (buildings s q) \<le> density (buildings (matureCell p s) q)"
  using promote_density(1)[of "ageUp p s" q p] by (simp add: matureCell_def)


lemma claimRoad_fields [simp]:
  "roads (claimRoad p s) = roads s @ [p]"
  "cars (claimRoad p s) = cars s"
  "waterCells (claimRoad p s) = waterCells s"
  "currentStep (claimRoad p s) = currentStep s"
  "gen (claimRoad p s) = gen s"
  "grid (claimRoad p s) = (grid s)(p := ROAD)"
  "buildings (claimRoad p s) = buildings s"
  by (simp_all add: claimRoad_def)

subsection \<open>The building type rule\<close>

lemma fold_count_skip:
  "fold (\<lambda>j c. if Q j then c else if P j then c + 1 else c) js (c0::int)
     = c0 + int (length (filter (\<lambda>j. \<not> Q j \<and> P j) js))"
  by (induction js arbitrary: c0) auto

lemma fold_count_rows:
  "fold (\<lambda>i. fold (\<lambda>j c. if Q i j then c else if P i j then c + 1 else c) js) ixs (c0::int)
     = c0 + int (sum_list (map (\<lambda>i. length (filter (\<lambda>j. \<not> Q i j \<and> P i j) js)) ixs))"
  by (induction ixs arbitrary: c0) (simp_all add: fold_count_skip)

lemma sum_list_pos_iff: "0 < sum_list (map f xs) \<longleftrightarrow> (\<exists>x\<in>set xs. 0 < (f x :: nat))"
  by (induction xs) auto

lemma length_filter_pos_iff: "0 < length (filter P xs) \<longleftrightarrow> (\<exists>x\<in>set xs. P x)"
  by (induction xs) auto

lemma countNeighborsOfTypeInRadius_pos:
  "countNeighborsOfTypeInRadius cfg s x y t radius > 0 \<longleftrightarrow> typeWithin cfg s x y t radius"
proof -
  have "countNeighborsOfTypeInRadius cfg s x y t radius =
     int (sum_list (map (\<lambda>i. length (filter (\<lambda>j. \<not> (i = 0 \<and> j = 0)
            \<and> (isValidCell cfg (x + i) (y + j) \<and> grid s (x + i, y + j) = t)) [- radius..radius]))
        [- radius..radius]))"
    unfolding countNeighborsOfTypeInRadius_def
    by (subst fold_count_rows) simp
  then have "countNeighborsOfTypeInRadius cfg s x y t radius > 0 \<longleftrightarrow>
      (\<exists>i\<in>set [- radius..radius]. \<exists>j\<in>set [- radius..radius]. \<not> (i = 0 \<and> j = 0)
            \<and> (isValidCell cfg (x + i) (y + j) \<and> grid s (x + i, y + j) = t))"
    by (simp only: of_nat_0_less_iff sum_list_pos_iff length_filter_pos_iff)
  also have "\<dots> \<longleftrightarrow> typeWithin cfg s x y t radius"
    unfolding typeWithin_def by (simp add: abs_le_iff Bex_def) (metis minus_le_iff)
  finally show ?thesis .
qed

lemma chooseType_spec:
  "chooseType cfg s x y r = specType r (typeWithin cfg s x y WATER 3)
          (typeWithin cfg s x y PARK 3 \<or> typeWithin cfg s x y FOREST 3) (currentStep s)"
  by (simp add: chooseType_def specType_def Let_def countNeighborsOfTypeInRadius_pos)

subsection \<open>Generic facts about loops\<close>

lemma fold_preserves:
  "(\<And>x t. P t \<Longrightarrow> P (f x t)) \<Longrightarrow> P s \<Longrightarrow> P (fold f xs s)"
  by (induction xs arbitrary: s) auto

lemma funpow_preserves:
  "(\<And>t. P t \<Longrightarrow> P (f t)) \<Longrightarrow> P s \<Longrightarrow> P ((f ^^ n) s)"
  by (induction n) auto

subsection \<open>Settled cells\<close>

lemma settled_refl [simp]: "settled s s"
  by (simp add: settled_def)

lemma settled_trans: "settled a b \<Longrightarrow> settled b c \<Longrightarrow> settled a c"
  unfolding settled_def
proof (intro conjI allI impI)
  assume h: "waterCells b = waterCells a \<and> (\<forall>p. grid a p \<noteq> EMPTY \<longrightarrow>
           grid b p = grid a p \<and> btype (buildings b p) = btype (buildings a p)
           \<and> age (buildings a p) \<le> age (buildings b p)
           \<and> density (buildings a p) \<le> density (buildings b p))"
    and k: "waterCells c = waterCells b \<and> (\<forall>p. grid b p \<noteq> EMPTY \<longrightarrow>
           grid c p = grid b p \<and> btype (buildings c p) = btype (buildings b p)
           \<and> age (buildings b p) \<le> age (buildings c p)
           \<and> density (buildings b p) \<le> density (buildings c p))"
  show "waterCells c = waterCells a" using h k by simp
  fix p assume p: "grid a p \<noteq> EMPTY"
  from h p have hb: "grid b p = grid a p \<and> btype (buildings b p) = btype (buildings a p)
           \<and> age (buildings a p) \<le> age (buildings b p)
           \<and> density (buildings a p) \<le> density (buildings b p)" by blast
  with p have b: "grid b p \<noteq> EMPTY" by metis
  from k b have kc: "grid c p = grid b p \<and> btype (buildings c p) = btype (buildings b p)
           \<and> age (buildings b p) \<le> age (buildings c p)
           \<and> density (buildings b p) \<le> density (buildings c p)" by blast
  show "grid c p = grid a p" using hb kc by metis
  show "btype (buildings c p) = btype (buildings a p)" using hb kc by metis
  show "age (buildings a p) \<le> age (buildings c p)" using hb kc by linarith
  show "density (buildings a p) \<le> density (buildings c p)" using hb kc by linarith
qed

lemma settled_fold: "(\<And>x t. settled t (f x t)) \<Longrightarrow> settled s (fold f xs s)"
  by (rule fold_preserves[where P = "settled s"]) (auto intro: settled_trans)

lemma settled_funpow: "(\<And>t. settled t (f t)) \<Longrightarrow> settled s ((f ^^ n) s)"
  by (rule funpow_preserves[where P = "settled s"]) (auto intro: settled_trans)

lemma settled_same:
  "waterCells s' = waterCells s \<Longrightarrow> grid s' = grid s \<Longrightarrow> buildings s' = buildings s
     \<Longrightarrow> settled s s'"
  by (simp add: settled_def)

lemma settled_untouched:
  assumes "waterCells s' = waterCells s"
    and "\<And>p. grid s p \<noteq> EMPTY \<Longrightarrow> grid s' p = grid s p \<and> buildings s' p = buildings s p"
  shows "settled s s'"
  unfolding settled_def
proof (intro conjI allI impI)
  show "waterCells s' = waterCells s" by (rule assms(1))
  fix p assume "grid s p \<noteq> EMPTY"
  from assms(2)[OF this] have e: "grid s' p = grid s p" and b: "buildings s' p = buildings s p"
    by simp_all
  show "grid s' p = grid s p" by (rule e)
  show "btype (buildings s' p) = btype (buildings s p)" by (simp add: b)
  show "age (buildings s p) \<le> age (buildings s' p)" by (simp add: b)
  show "density (buildings s p) \<le> density (buildings s' p)" by (simp add: b)
qed

subsection \<open>The placement loop\<close>

lemma fold_placeBuilding_frame [simp]:
  "roads (fold (placeBuilding cfg) ps s) = roads s"
  "cars (fold (placeBuilding cfg) ps s) = cars s"
  "waterCells (fold (placeBuilding cfg) ps s) = waterCells s"
  "currentStep (fold (placeBuilding cfg) ps s) = currentStep s"
  "gen (fold (placeBuilding cfg) ps s) = gen s"
  by (induction ps arbitrary: s) simp_all

lemma fold_placeBuilding_out:
  "q \<notin> set ps \<Longrightarrow> grid (fold (placeBuilding cfg) ps s) q = grid s q
                  \<and> buildings (fold (placeBuilding cfg) ps s) q = buildings s q"
  by (induction ps arbitrary: s) (auto simp: placeBuilding_other)

lemma isBuilding_chooseType [simp]: "isBuilding (chooseType cfg s x y r)"
  using chooseType_cases[of cfg s x y r] by (auto simp: isBuilding_def)

lemma fold_placeBuilding_keeps_building:
  "isBuilding (grid s q) \<Longrightarrow> isBuilding (grid (fold (placeBuilding cfg) ps s) q)"
  by (induction ps arbitrary: s) auto

lemma fold_placeBuilding_in:
  "q \<in> set ps \<Longrightarrow> isBuilding (grid (fold (placeBuilding cfg) ps s) q)"
proof (induction ps arbitrary: s)
  case Nil
  then show ?case by simp
next
  case (Cons p ps)
  show ?case
  proof (cases "q = p")
    case True
    have "isBuilding (grid (placeBuilding cfg p s) q)" using True by simp
    then show ?thesis by (simp add: fold_placeBuilding_keeps_building)
  next
    case False
    with Cons show ?thesis by simp
  qed
qed


text \<open>
  The placement phase places on a list of admitted spots, all of them collected
  candidates, as many as the rate allows and the candidates supply.
\<close>

lemma placeBuildings_effect:
  "\<exists>ps n. set ps \<subseteq> set (buildingSpots cfg s)
        \<and> length ps = min (nat (1 + currentStep s div 50)) (length (buildingSpots cfg s))
        \<and> placeBuildings cfg s = fold (placeBuilding cfg) ps (s\<lparr>drawn := n\<rparr>)"
proof -
  obtain spots s1 where sh: "shuffle (buildingSpots cfg s) s = (spots, s1)" by fastforce
  from shuffle_frame[OF sh] obtain n where
    m: "mset spots = mset (buildingSpots cfg s)" and s1: "s1 = s\<lparr>drawn := n\<rparr>" by auto
  let ?k = "nat (min (1 + currentStep s div 50) (int (length spots)))"
  have len: "length spots = length (buildingSpots cfg s)" using m by (rule mset_eq_length)
  have st: "set spots = set (buildingSpots cfg s)" using m by (rule mset_eq_setD)
  have "set (take ?k spots) \<subseteq> set (buildingSpots cfg s)"
    using st set_take_subset[of ?k spots] by simp
  moreover have "length (take ?k spots)
      = min (nat (1 + currentStep s div 50)) (length (buildingSpots cfg s))"
    using len by simp
  moreover have "placeBuildings cfg s = fold (placeBuilding cfg) (take ?k spots) (s\<lparr>drawn := n\<rparr>)"
    using sh s1 by (simp add: placeBuildings_def Let_def)
  ultimately show ?thesis by blast
qed

lemma placeBuildings_frame [simp]:
  "roads (placeBuildings cfg s) = roads s"
  "cars (placeBuildings cfg s) = cars s"
  "waterCells (placeBuildings cfg s) = waterCells s"
  "currentStep (placeBuildings cfg s) = currentStep s"
  "gen (placeBuildings cfg s) = gen s"
  using placeBuildings_effect[of cfg s] by auto

lemma placeBuildings_cell:
  "(grid (placeBuildings cfg s) q = grid s q \<and> buildings (placeBuildings cfg s) q = buildings s q)
   \<or> (grid s q = EMPTY \<and> isValidCell cfg (fst q) (snd q)
       \<and> isBuilding (grid (placeBuildings cfg s) q))"
proof -
  obtain ps n where ps: "set ps \<subseteq> set (buildingSpots cfg s)"
    and eq: "placeBuildings cfg s = fold (placeBuilding cfg) ps (s\<lparr>drawn := n\<rparr>)"
    using placeBuildings_effect[of cfg s] by blast
  show ?thesis
  proof (cases "q \<in> set ps")
    case True
    then have "q \<in> set (buildingSpots cfg s)" using ps by blast
    then have "grid s q = EMPTY \<and> isValidCell cfg (fst q) (snd q)"
      by (simp add: buildingSpots_set)
    moreover have "isBuilding (grid (placeBuildings cfg s) q)"
      unfolding eq using True by (rule fold_placeBuilding_in)
    ultimately show ?thesis by simp
  next
    case False
    then show ?thesis unfolding eq using fold_placeBuilding_out[OF False, of cfg "s\<lparr>drawn := n\<rparr>"]
      by simp
  qed
qed

lemma placeBuildings_settled: "settled s (placeBuildings cfg s)"
proof (rule settled_untouched)
  show "waterCells (placeBuildings cfg s) = waterCells s" by simp
  fix p assume "grid s p \<noteq> EMPTY"
  then show "grid (placeBuildings cfg s) p = grid s p
      \<and> buildings (placeBuildings cfg s) p = buildings s p"
    using placeBuildings_cell[of cfg s p] by blast
qed


subsection \<open>The maturation loop\<close>

lemma fold_matureCell_frame [simp]:
  "roads (fold matureCell cs s) = roads s"
  "cars (fold matureCell cs s) = cars s"
  "waterCells (fold matureCell cs s) = waterCells s"
  "currentStep (fold matureCell cs s) = currentStep s"
  "gen (fold matureCell cs s) = gen s"
  "grid (fold matureCell cs s) = grid s"
  "btype (buildings (fold matureCell cs s) q) = btype (buildings s q)"
  by (induction cs arbitrary: s) simp_all

lemma fold_matureCell_age:
  "age (buildings s q) \<le> age (buildings (fold matureCell cs s) q)"
proof (induction cs arbitrary: s)
  case Nil
  show ?case by simp
next
  case (Cons c cs)
  have "age (buildings s q) \<le> age (buildings (matureCell c s) q)" by (rule matureCell_age)
  also have "\<dots> \<le> age (buildings (fold matureCell cs (matureCell c s)) q)" by (rule Cons.IH)
  finally show ?case by simp
qed

lemma fold_matureCell_density:
  "density (buildings s q) \<le> density (buildings (fold matureCell cs s) q)"
proof (induction cs arbitrary: s)
  case Nil
  show ?case by simp
next
  case (Cons c cs)
  have "density (buildings s q) \<le> density (buildings (matureCell c s) q)"
    by (rule matureCell_density)
  also have "\<dots> \<le> density (buildings (fold matureCell cs (matureCell c s)) q)"
    by (rule Cons.IH)
  finally show ?case by simp
qed


lemma matureBuildings_frame [simp]:
  "roads (matureBuildings cfg s) = roads s"
  "cars (matureBuildings cfg s) = cars s"
  "waterCells (matureBuildings cfg s) = waterCells s"
  "currentStep (matureBuildings cfg s) = currentStep s"
  "gen (matureBuildings cfg s) = gen s"
  "grid (matureBuildings cfg s) = grid s"
  "btype (buildings (matureBuildings cfg s) q) = btype (buildings s q)"
  by (simp_all add: matureBuildings_def)

lemma matureBuildings_settled: "settled s (matureBuildings cfg s)"
  by (simp add: settled_def matureBuildings_def fold_matureCell_age fold_matureCell_density)


subsection \<open>The road-extension block\<close>

lemma fold_claimRoad [simp]:
  "grid (fold claimRoad ps s) = (\<lambda>q. if q \<in> set ps then ROAD else grid s q)"
  "roads (fold claimRoad ps s) = roads s @ ps"
  "cars (fold claimRoad ps s) = cars s"
  "waterCells (fold claimRoad ps s) = waterCells s"
  "currentStep (fold claimRoad ps s) = currentStep s"
  "gen (fold claimRoad ps s) = gen s"
  "buildings (fold claimRoad ps s) = buildings s"
  by (induction ps arbitrary: s) (auto simp: fun_eq_iff)

lemma extendRoads_effect:
  "\<exists>ps n. set ps \<subseteq> set (roadSpots cfg s)
        \<and> length ps = min (nat (1 + currentStep s div 100)) (length (roadSpots cfg s))
        \<and> extendRoads cfg s = fold claimRoad ps (s\<lparr>drawn := n\<rparr>)"
proof -
  obtain spots s1 where sh: "shuffle (roadSpots cfg s) s = (spots, s1)" by fastforce
  from shuffle_frame[OF sh] obtain n where
    m: "mset spots = mset (roadSpots cfg s)" and s1: "s1 = s\<lparr>drawn := n\<rparr>" by auto
  let ?k = "nat (min (1 + currentStep s div 100) (int (length spots)))"
  have len: "length spots = length (roadSpots cfg s)" using m by (rule mset_eq_length)
  have st: "set spots = set (roadSpots cfg s)" using m by (rule mset_eq_setD)
  have "set (take ?k spots) \<subseteq> set (roadSpots cfg s)"
    using st set_take_subset[of ?k spots] by simp
  moreover have "length (take ?k spots)
      = min (nat (1 + currentStep s div 100)) (length (roadSpots cfg s))"
    using len by simp
  moreover have "extendRoads cfg s = fold claimRoad (take ?k spots) (s\<lparr>drawn := n\<rparr>)"
    using sh s1 by (simp add: extendRoads_def Let_def)
  ultimately show ?thesis by blast
qed

lemma extendRoads_frame [simp]:
  "cars (extendRoads cfg s) = cars s"
  "waterCells (extendRoads cfg s) = waterCells s"
  "currentStep (extendRoads cfg s) = currentStep s"
  "gen (extendRoads cfg s) = gen s"
  "buildings (extendRoads cfg s) = buildings s"
  using extendRoads_effect[of cfg s] by auto

lemma extendRoads_settled: "settled s (extendRoads cfg s)"
proof -
  obtain ps n where ps: "set ps \<subseteq> set (roadSpots cfg s)"
    and eq: "extendRoads cfg s = fold claimRoad ps (s\<lparr>drawn := n\<rparr>)"
    using extendRoads_effect[of cfg s] by blast
  show ?thesis
  proof (rule settled_untouched)
    show "waterCells (extendRoads cfg s) = waterCells s" by simp
    fix p assume p: "grid s p \<noteq> EMPTY"
    then have "p \<notin> set (roadSpots cfg s)" by (simp add: roadSpots_set)
    then have "p \<notin> set ps" using ps by blast
    then show "grid (extendRoads cfg s) p = grid s p
        \<and> buildings (extendRoads cfg s) p = buildings s p"
      by (simp add: eq)
  qed
qed

lemma extendRoads_roadsExact: "roadsExact s \<Longrightarrow> roadsExact (extendRoads cfg s)"
proof -
  assume r: "roadsExact s"
  obtain ps n where eq: "extendRoads cfg s = fold claimRoad ps (s\<lparr>drawn := n\<rparr>)"
    using extendRoads_effect[of cfg s] by blast
  show ?thesis using r unfolding roadsExact_def eq by auto
qed


subsection \<open>Roads under placement and maturation\<close>

lemma roadsExact_quiet:
  assumes "roadsExact s" and "roads s' = roads s"
    and "\<And>p. (grid s' p = ROAD) = (grid s p = ROAD)"
  shows "roadsExact s'"
  using assms by (simp add: roadsExact_def)

lemma isBuilding_not_ROAD: "isBuilding t \<Longrightarrow> t \<noteq> ROAD"
  by (auto simp: isBuilding_def)

lemma placeBuildings_roadsExact: "roadsExact s \<Longrightarrow> roadsExact (placeBuildings cfg s)"
proof (erule roadsExact_quiet)
  show "roads (placeBuildings cfg s) = roads s" by simp
  fix p show "(grid (placeBuildings cfg s) p = ROAD) = (grid s p = ROAD)"
    using placeBuildings_cell[of cfg s p] isBuilding_not_ROAD by fastforce
qed

lemma matureBuildings_roadsExact: "roadsExact s \<Longrightarrow> roadsExact (matureBuildings cfg s)"
  by (erule roadsExact_quiet) simp_all

subsection \<open>The growth engine as a whole\<close>

lemma growCity_frame [simp]:
  "cars (growCity cfg s) = cars s"
  "waterCells (growCity cfg s) = waterCells s"
  "currentStep (growCity cfg s) = currentStep s"
  "gen (growCity cfg s) = gen s"
  by (simp_all add: growCity_def Let_def)

lemma growCity_settled: "settled s (growCity cfg s)"
proof -
  have a: "settled s (matureBuildings cfg (placeBuildings cfg s))"
    using placeBuildings_settled matureBuildings_settled by (rule settled_trans)
  show ?thesis unfolding growCity_def Let_def
    using a settled_trans[OF a extendRoads_settled] by simp
qed

lemma growCity_roadsExact: "roadsExact s \<Longrightarrow> roadsExact (growCity cfg s)"
  by (simp add: growCity_def Let_def placeBuildings_roadsExact matureBuildings_roadsExact
      extendRoads_roadsExact)


subsection \<open>Routines that only draw, or only move cars\<close>

lemma redrawn_refl [simp]: "redrawn s s"
  unfolding redrawn_def by (rule exI[of _ "drawn s"]) simp

lemma redrawn_drawn [simp]: "redrawn s (s\<lparr>drawn := n\<rparr>)"
  unfolding redrawn_def by blast

lemma redrawn_trans: "redrawn a b \<Longrightarrow> redrawn b c \<Longrightarrow> redrawn a c"
  unfolding redrawn_def by auto

lemma redrawn_fields:
  assumes "redrawn s s'"
  shows "grid s' = grid s" "buildings s' = buildings s" "cars s' = cars s"
    "roads s' = roads s" "waterCells s' = waterCells s" "currentStep s' = currentStep s"
    "gen s' = gen s"
  using assms by (auto simp: redrawn_def)

lemma redrawn_uniform_int [simp]: "redrawn s (snd (uniform_int a b s))"
  by (simp add: rng_defs)

lemma redrawn_gen_next [simp]: "redrawn s (snd (gen_next s))"
  by (simp add: rng_defs)

lemma shuffle_redrawn: "redrawn s (snd (shuffle xs s))"
  using shuffle_frame[of xs s "fst (shuffle xs s)" "snd (shuffle xs s)"]
  by (simp add: redrawn_def)

lemma retrafficked_refl [simp]: "retrafficked s s"
  unfolding retrafficked_def by (rule exI[of _ "cars s"], rule exI[of _ "drawn s"]) simp

lemma retrafficked_update [simp]:
  "retrafficked s (s\<lparr>cars := cs, drawn := n\<rparr>)"
  "retrafficked s (s\<lparr>drawn := n\<rparr>)"
  "retrafficked s (s\<lparr>cars := cs\<rparr>)"
  "retrafficked s (s\<lparr>drawn := n, cars := cs\<rparr>)"
proof -
  show "retrafficked s (s\<lparr>cars := cs, drawn := n\<rparr>)" unfolding retrafficked_def by blast
  have "s\<lparr>drawn := n\<rparr> = s\<lparr>cars := cars s, drawn := n\<rparr>" by simp
  then show "retrafficked s (s\<lparr>drawn := n\<rparr>)" unfolding retrafficked_def by blast
  have "s\<lparr>cars := cs\<rparr> = s\<lparr>cars := cs, drawn := drawn s\<rparr>" by simp
  then show "retrafficked s (s\<lparr>cars := cs\<rparr>)" unfolding retrafficked_def by blast
  have "s\<lparr>drawn := n, cars := cs\<rparr> = s\<lparr>cars := cs, drawn := n\<rparr>" by simp
  then show "retrafficked s (s\<lparr>drawn := n, cars := cs\<rparr>)" unfolding retrafficked_def by blast
qed

lemma retrafficked_redrawn: "redrawn s s' \<Longrightarrow> retrafficked s s'"
proof -
  assume "redrawn s s'"
  then obtain n where "s' = s\<lparr>drawn := n\<rparr>" unfolding redrawn_def by blast
  then have "s' = s\<lparr>cars := cars s, drawn := n\<rparr>" by simp
  then show ?thesis unfolding retrafficked_def by blast
qed

lemma retrafficked_trans: "retrafficked a b \<Longrightarrow> retrafficked b c \<Longrightarrow> retrafficked a c"
proof -
  assume "retrafficked a b" and "retrafficked b c"
  then obtain cs n cs' n' where "b = a\<lparr>cars := cs, drawn := n\<rparr>"
    and "c = b\<lparr>cars := cs', drawn := n'\<rparr>"
    unfolding retrafficked_def by blast
  then have "c = a\<lparr>cars := cs', drawn := n'\<rparr>" by simp
  then show ?thesis unfolding retrafficked_def by blast
qed

lemma retrafficked_fields:
  assumes "retrafficked s s'"
  shows "grid s' = grid s" "buildings s' = buildings s"
    "roads s' = roads s" "waterCells s' = waterCells s" "currentStep s' = currentStep s"
    "gen s' = gen s"
  using assms by (auto simp: retrafficked_def)

lemma updateCar_redrawn: "redrawn s (snd (updateCar cfg car s))"
  by (simp add: updateCar_def rng_defs Let_def split: prod.splits)

lemma moveCars_redrawn: "redrawn s (snd (moveCars cfg cs s))"
proof (induction cs arbitrary: s)
  case Nil
  show ?case by simp
next
  case (Cons car cs)
  have "redrawn (snd (updateCar cfg car s)) (snd (moveCars cfg cs (snd (updateCar cfg car s))))"
    by (rule Cons.IH)
  with updateCar_redrawn[of s cfg car] show ?case
    by (auto split: prod.splits intro: redrawn_trans)
qed

lemma addRandomCar_retrafficked: "retrafficked s (addRandomCar cfg s)"
  by (simp add: addRandomCar_def rng_defs split: prod.splits)

lemma updateCars_retrafficked: "retrafficked s (updateCars cfg s)"
proof (cases "roads s = []")
  case True
  then show ?thesis by (simp add: updateCars_def)
next
  case False
  obtain cs s1 where m: "moveCars cfg (cars s) s = (cs, s1)" by fastforce
  have "redrawn s s1" using moveCars_redrawn[of s cfg "cars s"] m by simp
  then obtain n where s1: "s1 = s\<lparr>drawn := n\<rparr>" by (auto simp: redrawn_def)
  have a: "retrafficked s (s1\<lparr>cars := cs, drawn := Suc (drawn s1)\<rparr>)"
    unfolding s1 by simp
  have b: "retrafficked (s1\<lparr>cars := cs, drawn := Suc (drawn s1)\<rparr>)
             (addRandomCar cfg (s1\<lparr>cars := cs, drawn := Suc (drawn s1)\<rparr>))"
    by (rule addRandomCar_retrafficked)
  show ?thesis using False m a retrafficked_trans[OF a b]
    by (simp add: updateCars_def Let_def rng_defs)
qed

lemma updateCars_frame [simp]:
  "grid (updateCars cfg s) = grid s" "buildings (updateCars cfg s) = buildings s"
  "roads (updateCars cfg s) = roads s" "waterCells (updateCars cfg s) = waterCells s"
  "currentStep (updateCars cfg s) = currentStep s" "gen (updateCars cfg s) = gen s"
  using retrafficked_fields[OF updateCars_retrafficked[of s cfg]] by simp_all

lemma addRandomCar_frame [simp]:
  "grid (addRandomCar cfg s) = grid s" "buildings (addRandomCar cfg s) = buildings s"
  "roads (addRandomCar cfg s) = roads s" "waterCells (addRandomCar cfg s) = waterCells s"
  "currentStep (addRandomCar cfg s) = currentStep s" "gen (addRandomCar cfg s) = gen s"
  using retrafficked_fields[OF addRandomCar_retrafficked[of s cfg]] by simp_all

subsection \<open>One tick\<close>

lemma simulationStep_frame [simp]:
  "waterCells (simulationStep cfg s) = waterCells s"
  "currentStep (simulationStep cfg s) = currentStep s + 1"
  "gen (simulationStep cfg s) = gen s"
  by (simp_all add: simulationStep_def Let_def)

lemma settled_step_counter [simp]: "settled s (s\<lparr>currentStep := n\<rparr>)"
  by (simp add: settled_def)

lemma simulationStep_settled: "settled s (simulationStep cfg s)"
proof -
  have a: "settled s (updateCars cfg s)" by (rule settled_same) simp_all
  have b: "settled (updateCars cfg s) (growCity cfg (updateCars cfg s))"
    by (rule growCity_settled)
  have c: "settled s (growCity cfg (updateCars cfg s))" using a b by (rule settled_trans)
  show ?thesis unfolding simulationStep_def Let_def
    using a c by (auto intro: settled_trans[OF _ settled_step_counter])
qed

lemma roadsExact_step_counter [simp]: "roadsExact (s\<lparr>currentStep := n\<rparr>) = roadsExact s"
  by (simp add: roadsExact_def)

lemma updateCars_roadsExact: "roadsExact s \<Longrightarrow> roadsExact (updateCars cfg s)"
  by (erule roadsExact_quiet) simp_all

lemma simulationStep_roadsExact: "roadsExact s \<Longrightarrow> roadsExact (simulationStep cfg s)"
  by (simp add: simulationStep_def Let_def growCity_roadsExact updateCars_roadsExact)

lemma densityBounded_step_counter [simp]:
  "densityBounded (s\<lparr>currentStep := n\<rparr>) = densityBounded s"
  by (simp add: densityBounded_def)


subsection \<open>The road network builder\<close>

lemma claimRoad_settled: "grid s p = EMPTY \<Longrightarrow> settled s (claimRoad p s)"
  by (rule settled_untouched) auto

lemma claimRoad_roadsExact: "roadsExact s \<Longrightarrow> roadsExact (claimRoad p s)"
  by (auto simp: roadsExact_def)

lemma claimRoadIfEmpty_settled: "settled s (claimRoadIfEmpty p s)"
  by (simp add: claimRoadIfEmpty_def claimRoad_settled)

lemma claimRoadIfEmpty_roadsExact: "roadsExact s \<Longrightarrow> roadsExact (claimRoadIfEmpty p s)"
  by (simp add: claimRoadIfEmpty_def claimRoad_roadsExact)

lemma claimRoadIfEmpty_buildings [simp]: "buildings (claimRoadIfEmpty p s) = buildings s"
  by (simp add: claimRoadIfEmpty_def)

lemma branchWalk_settled: "settled s (branchWalk cfg n d x y s)"
proof (induction n arbitrary: x y s)
  case 0
  show ?case by simp
next
  case (Suc n)
  show ?case
  proof (cases "isValidCell cfg (x + dx d) (y + dy d) \<and> grid s (x + dx d, y + dy d) = EMPTY")
    case True
    then have "settled s (claimRoad (x + dx d, y + dy d) s)" by (simp add: claimRoad_settled)
    from settled_trans[OF this Suc.IH] True show ?thesis by (simp add: Let_def)
  next
    case False
    then show ?thesis by (auto simp: Let_def)
  qed
qed

lemma branchWalk_roadsExact: "roadsExact s \<Longrightarrow> roadsExact (branchWalk cfg n d x y s)"
  by (induction n arbitrary: x y s) (simp_all add: Let_def claimRoad_roadsExact)

lemma branchWalk_buildings [simp]: "buildings (branchWalk cfg n d x y s) = buildings s"
  by (induction n arbitrary: x y s) (simp_all add: Let_def)

lemma settled_drawn [simp]: "settled s (s\<lparr>drawn := n\<rparr>)"
  by (simp add: settled_def)

lemma branchRoad_settled: "settled s (branchRoad cfg i s)"
proof -
  have "settled s (branchWalk cfg n d x y (s\<lparr>drawn := k\<rparr>))" for k n d x y
    using settled_drawn branchWalk_settled by (rule settled_trans)
  then show ?thesis by (simp add: branchRoad_def Let_def rng_defs)
qed

lemma roadsExact_drawn [simp]: "roadsExact (s\<lparr>drawn := n\<rparr>) = roadsExact s"
  by (simp add: roadsExact_def)

lemma branchRoad_roadsExact: "roadsExact s \<Longrightarrow> roadsExact (branchRoad cfg i s)"
  by (simp add: branchRoad_def Let_def rng_defs branchWalk_roadsExact)

lemma branchRoad_buildings [simp]: "buildings (branchRoad cfg i s) = buildings s"
  by (simp add: branchRoad_def Let_def rng_defs)

lemma addRandomCar_settled: "settled s (addRandomCar cfg s)"
  by (rule settled_same) simp_all

lemma addRandomCar_roadsExact: "roadsExact s \<Longrightarrow> roadsExact (addRandomCar cfg s)"
  by (erule roadsExact_quiet) simp_all

lemma generateInitialRoads_settled: "settled s (generateInitialRoads cfg s)"
  unfolding generateInitialRoads_def Let_def
  by (intro settled_trans[OF settled_fold settled_trans[OF settled_fold
        settled_trans[OF settled_fold settled_funpow]]]
      claimRoadIfEmpty_settled branchRoad_settled addRandomCar_settled)

lemma generateInitialRoads_roadsExact:
  "roadsExact s \<Longrightarrow> roadsExact (generateInitialRoads cfg s)"
  unfolding generateInitialRoads_def Let_def
  by (intro funpow_preserves[where P = roadsExact] fold_preserves[where P = roadsExact]
      claimRoadIfEmpty_roadsExact branchRoad_roadsExact addRandomCar_roadsExact)

lemma generateInitialRoads_buildings [simp]:
  "buildings (generateInitialRoads cfg s) = buildings s"
proof -
  have "\<And>t. buildings t = buildings s \<Longrightarrow> buildings (generateInitialRoads cfg t) = buildings s"
    unfolding generateInitialRoads_def Let_def
    by (intro funpow_preserves[where P = "\<lambda>t. buildings t = buildings s"]
      fold_preserves[where P = "\<lambda>t. buildings t = buildings s"]) simp_all
  then show ?thesis by simp
qed

subsection \<open>The terrain generator\<close>

lemma terrainOnly_drawn [simp]: "terrainOnly (s\<lparr>drawn := n\<rparr>) = terrainOnly s"
  by (simp add: terrainOnly_def waterTagged_def)

lemma terrainOnly_redrawn: "redrawn s t \<Longrightarrow> terrainOnly s \<Longrightarrow> terrainOnly t"
  by (auto simp: redrawn_def)

lemma terrainOnly_water:
  "terrainOnly s \<Longrightarrow>
   terrainOnly (s\<lparr>grid := (grid s)(p := WATER), waterCells := waterCells s @ [p]\<rparr>)"
  by (auto simp: terrainOnly_def waterTagged_def)

lemma terrainOnly_green:
  "terrainOnly s \<Longrightarrow> grid s p = EMPTY \<Longrightarrow> t \<noteq> ROAD \<Longrightarrow>
   terrainOnly (s\<lparr>grid := (grid s)(p := t),
                   buildings := (buildings s)(p := (buildings s p)\<lparr>btype := t, variant := v\<rparr>)\<rparr>)"
  by (auto simp: terrainOnly_def waterTagged_def)

lemma claimWater_terrainOnly: "terrainOnly s \<Longrightarrow> terrainOnly (claimWater cfg p s)"
  by (simp add: claimWater_def terrainOnly_water)

lemma stampWater_terrainOnly: "terrainOnly s \<Longrightarrow> terrainOnly (stampWater cfg x y s)"
  unfolding stampWater_def
  by (rule fold_preserves[where P = terrainOnly]) (simp_all add: claimWater_terrainOnly)

lemma river_terrainOnly: "terrainOnly s \<Longrightarrow> terrainOnly (river cfg n dir x y s)"
proof (induction n arbitrary: dir x y s)
  case 0
  then show ?case by simp
next
  case (Suc n)
  have st: "terrainOnly (stampWater cfg x y (s\<lparr>drawn := k\<rparr>))" for k
    using Suc.prems by (simp add: stampWater_terrainOnly)
  show ?case
    by (simp add: Let_def rng_defs st Suc.IH split: prod.splits)
qed

lemma expandFrontier_redrawn: "redrawn s (snd (expandFrontier chance p queue s))"
  by (simp add: expandFrontier_def rng_defs)

lemma lake_terrainOnly: "terrainOnly s \<Longrightarrow> terrainOnly (lake cfg queue n s)"
proof (induction cfg queue n s rule: lake.induct)
  case (1 cfg n s)
  then show ?case by simp
next
  case (2 cfg p queue s)
  then show ?case by simp
next
  case (3 cfg p queue n s)
  show ?case
  proof (cases "\<not> isValidCell cfg (fst p) (snd p) \<or> grid s p \<noteq> EMPTY")
    case True
    with 3 show ?thesis by simp
  next
    case False
    let ?s1 = "s\<lparr>grid := (grid s)(p := WATER), waterCells := waterCells s @ [p]\<rparr>"
    obtain queue' s2 where e: "expandFrontier 70 p queue ?s1 = (queue', s2)" by fastforce
    have "terrainOnly ?s1" using "3.prems" by (rule terrainOnly_water)
    moreover have "redrawn ?s1 s2" using expandFrontier_redrawn[of ?s1 70 p queue] e by simp
    ultimately have "terrainOnly s2" by (rule terrainOnly_redrawn[rotated])
    then have "terrainOnly (lake cfg queue' n s2)"
      using "3.IH"(2)[OF False refl e[symmetric]] by simp
    then show ?thesis using False e by (simp add: Let_def)
  qed
qed

lemma waterBody_terrainOnly: "terrainOnly s \<Longrightarrow> terrainOnly (waterBody cfg s)"
  by (simp add: waterBody_def rng_defs river_terrainOnly lake_terrainOnly)

lemma forest_terrainOnly: "terrainOnly s \<Longrightarrow> terrainOnly (forest cfg queue n s)"
proof (induction cfg queue n s rule: forest.induct)
  case (1 cfg n s)
  then show ?case by simp
next
  case (2 cfg p queue s)
  then show ?case by simp
next
  case (3 cfg p queue n s)
  show ?case
  proof (cases "\<not> isValidCell cfg (fst p) (snd p) \<or> grid s p \<noteq> EMPTY")
    case True
    with 3 show ?thesis by simp
  next
    case False
    obtain r s0 where g: "gen_next s = (r, s0)" by fastforce
    then have s0: "s0 = s\<lparr>drawn := Suc (drawn s)\<rparr>" by (auto simp: rng_defs)
    let ?s1 = "s0\<lparr>grid := (grid s0)(p := FOREST),
                    buildings := (buildings s0)(p := (buildings s0 p)
                       \<lparr>btype := FOREST, variant := r mod 3\<rparr>)\<rparr>"
    obtain queue' s2 where e: "expandFrontier 60 p queue ?s1 = (queue', s2)" by fastforce
    have "terrainOnly s0" using "3.prems" s0 by simp
    moreover have "grid s0 p = EMPTY" using False s0 by simp
    ultimately have "terrainOnly ?s1" by (intro terrainOnly_green) simp_all
    moreover have "redrawn ?s1 s2" using expandFrontier_redrawn[of ?s1 60 p queue] e by simp
    ultimately have "terrainOnly s2" by (rule terrainOnly_redrawn[rotated])
    then have "terrainOnly (forest cfg queue' n s2)"
      using "3.IH"(2)[OF False g[symmetric] refl e[symmetric]] by simp
    then show ?thesis using False e g by (simp add: Let_def)
  qed
qed

lemma forestPatch_terrainOnly: "terrainOnly s \<Longrightarrow> terrainOnly (forestPatch cfg s)"
  by (simp add: forestPatch_def rng_defs forest_terrainOnly)

lemma claimFarm_terrainOnly: "terrainOnly s \<Longrightarrow> terrainOnly (claimFarm cfg p s)"
proof (cases "isValidCell cfg (fst p) (snd p) \<and> grid s p = EMPTY")
  case True
  assume t: "terrainOnly s"
  let ?s0 = "s\<lparr>drawn := Suc (drawn s)\<rparr>"
  have "terrainOnly (?s0\<lparr>grid := (grid ?s0)(p := FARM),
          buildings := (buildings ?s0)(p := (buildings ?s0 p)
             \<lparr>btype := FARM, variant := (gen s (drawn s) mod 2 ^ 32) mod 3\<rparr>)\<rparr>)"
    using t True by (intro terrainOnly_green) simp_all
  then show ?thesis using True by (simp add: claimFarm_def rng_defs)
next
  case False
  assume "terrainOnly s"
  with False show ?thesis by (auto simp: claimFarm_def)
qed

lemma farmPatch_terrainOnly: "terrainOnly s \<Longrightarrow> terrainOnly (farmPatch cfg s)"
proof -
  assume t: "terrainOnly s"
  have "terrainOnly (fold (claimFarm cfg) cells (s\<lparr>drawn := k\<rparr>))" for cells k
    by (rule fold_preserves[where P = terrainOnly]) (simp_all add: claimFarm_terrainOnly t)
  then show ?thesis by (simp add: farmPatch_def rng_defs)
qed

lemma uniform_int_pair:
  "uniform_int a b s = (fst (uniform_int a b s), s\<lparr>drawn := Suc (drawn s)\<rparr>)"
  by (simp add: rng_defs)

lemma generateTerrain_terrainOnly: "terrainOnly s \<Longrightarrow> terrainOnly (generateTerrain cfg s)"
proof -
  assume t: "terrainOnly s"
  define v1 where "v1 = fst (uniform_int 1 3 s)"
  define s2 where "s2 = (waterBody cfg ^^ nat v1) (s\<lparr>drawn := Suc (drawn s)\<rparr>)"
  define v2 where "v2 = fst (uniform_int 2 5 s2)"
  define s4 where "s4 = (forestPatch cfg ^^ nat v2) (s2\<lparr>drawn := Suc (drawn s2)\<rparr>)"
  define v3 where "v3 = fst (uniform_int 1 3 s4)"
  have e1: "uniform_int 1 3 s = (v1, s\<lparr>drawn := Suc (drawn s)\<rparr>)"
    unfolding v1_def by (rule uniform_int_pair)
  have e2: "uniform_int 2 5 s2 = (v2, s2\<lparr>drawn := Suc (drawn s2)\<rparr>)"
    unfolding v2_def by (rule uniform_int_pair)
  have e3: "uniform_int 1 3 s4 = (v3, s4\<lparr>drawn := Suc (drawn s4)\<rparr>)"
    unfolding v3_def by (rule uniform_int_pair)
  have eq: "generateTerrain cfg s = (farmPatch cfg ^^ nat v3) (s4\<lparr>drawn := Suc (drawn s4)\<rparr>)"
    unfolding generateTerrain_def e1 prod.case Let_def s2_def[symmetric] e2
      s4_def[symmetric] e3 by (rule refl)
  have "terrainOnly s2" unfolding s2_def
    by (intro funpow_preserves[where P = terrainOnly] waterBody_terrainOnly) (simp_all add: t)
  then have "terrainOnly s4" unfolding s4_def
    by (intro funpow_preserves[where P = terrainOnly] forestPatch_terrainOnly) simp_all
  then show ?thesis unfolding eq
    by (intro funpow_preserves[where P = terrainOnly] farmPatch_terrainOnly) simp_all
qed

lemma terrainState_terrainOnly: "terrainOnly (terrainState cfg g)"
  unfolding terrainState_def
  by (rule generateTerrain_terrainOnly)
     (simp add: terrainOnly_def startup_def waterTagged_def emptyBuilding_def)

subsection \<open>Runs\<close>

lemma initializeGrid_startup:
  "initializeGrid cfg (startup g) = generateInitialRoads cfg (terrainState cfg g)"
  by (simp add: initializeGrid_def terrainState_def)

lemma run_0: "run cfg g 0 = generateInitialRoads cfg (terrainState cfg g)"
  by (simp add: run_def initializeGrid_startup)

lemma run_Suc: "run cfg g (Suc n) = simulationStep cfg (run cfg g n)"
  by (simp add: run_def)

lemma run_roadsExact: "roadsExact (run cfg g n)"
proof (induction n)
  case 0
  have "roadsExact (terrainState cfg g)"
    using terrainState_terrainOnly[of cfg g] by (simp add: terrainOnly_def roadsExact_def)
  then show ?case unfolding run_0 by (rule generateInitialRoads_roadsExact)
next
  case (Suc n)
  then show ?case unfolding run_Suc by (rule simulationStep_roadsExact)
qed


lemma run_settled: "settled (run cfg g n) (run cfg g (n + k))"
proof (induction k)
  case 0
  show ?case by simp
next
  case (Suc k)
  have "settled (run cfg g (n + k)) (run cfg g (n + Suc k))"
    by (simp add: run_Suc simulationStep_settled)
  with Suc show ?case by (rule settled_trans)
qed

lemma run_settled_from_terrain: "settled (terrainState cfg g) (run cfg g n)"
proof -
  have "settled (terrainState cfg g) (run cfg g 0)"
    unfolding run_0 by (rule generateInitialRoads_settled)
  moreover have "settled (run cfg g 0) (run cfg g n)" using run_settled[of cfg g 0 n] by simp
  ultimately show ?thesis by (rule settled_trans)
qed

text \<open>The cells of the horizontal arterial are taken once the roads are laid.\<close>

lemma fold_claim_row:
  "x \<in> set xs \<Longrightarrow> grid (fold (\<lambda>x. claimRoadIfEmpty (x, y)) xs s) (x, y) \<noteq> EMPTY"
proof (induction xs arbitrary: s)
  case Nil
  then show ?case by simp
next
  case (Cons a xs)
  show ?case
  proof (cases "x \<in> set xs")
    case True
    then show ?thesis using Cons.IH by simp
  next
    case False
    then have xa: "x = a" using Cons.prems by simp
    have ne: "grid (claimRoadIfEmpty (a, y) s) (a, y) \<noteq> EMPTY"
      by (simp add: claimRoadIfEmpty_def)
    have "settled (claimRoadIfEmpty (a, y) s)
            (fold (\<lambda>x. claimRoadIfEmpty (x, y)) xs (claimRoadIfEmpty (a, y) s))"
      by (rule settled_fold) (rule claimRoadIfEmpty_settled)
    then have "grid (fold (\<lambda>x. claimRoadIfEmpty (x, y)) xs (claimRoadIfEmpty (a, y) s)) (a, y)
        = grid (claimRoadIfEmpty (a, y) s) (a, y)"
      using ne unfolding settled_def by blast
    then show ?thesis using ne xa by simp
  qed
qed

lemma arterial_taken:
  assumes "0 \<le> x" "x < GRID_WIDTH cfg"
  shows "grid (generateInitialRoads cfg s) (x, GRID_HEIGHT cfg div 2) \<noteq> EMPTY"
proof -
  let ?y = "GRID_HEIGHT cfg div 2"
  let ?s1 = "fold (\<lambda>x. claimRoadIfEmpty (x, ?y)) [0..GRID_WIDTH cfg - 1] s"
  have ne: "grid ?s1 (x, ?y) \<noteq> EMPTY" using assms by (intro fold_claim_row) simp
  have "settled ?s1 (generateInitialRoads cfg s)"
    unfolding generateInitialRoads_def Let_def
    by (intro settled_trans[OF settled_fold settled_trans[OF settled_fold settled_funpow]]
      claimRoadIfEmpty_settled branchRoad_settled addRandomCar_settled)
  then show ?thesis using ne unfolding settled_def by metis
qed

subsection \<open>One car at a blocked cell\<close>

lemma possibleDirs_set:
  "set (possibleDirs cfg s car) =
     {d \<in> {0, 1, 2, 3}. d \<noteq> (direction car + 2) mod 4
        \<and> isValidCell cfg (f_trunc cfg (car_x car) + dx d) (f_trunc cfg (car_y car) + dy d)
        \<and> grid s (f_trunc cfg (car_x car) + dx d, f_trunc cfg (car_y car) + dy d) = ROAD}"
  unfolding possibleDirs_def set_filter by auto


lemma updateCar_reroute:
  assumes "blocked cfg s car" and "possibleDirs cfg s car \<noteq> []"
  shows "fst (updateCar cfg car s) =
     (let d = possibleDirs cfg s car
                ! nat (fst (uniform_int 0 (int (length (possibleDirs cfg s car)) - 1) s))
      in car\<lparr>direction := d,
              car_x := advance cfg (car_x car) (dx d) (speed car),
              car_y := advance cfg (car_y car) (dy d) (speed car)\<rparr>)"
  using assms by (simp add: updateCar_def Let_def split: prod.splits)

lemma updateCar_teleport:
  assumes "blocked cfg s car" and "possibleDirs cfg s car = []"
  shows "fst (updateCar cfg car s) =
     (let ri = fst (uniform_int 0 (int (length (roads s)) - 1) s);
          s1 = snd (uniform_int 0 (int (length (roads s)) - 1) s)
      in car\<lparr>roadIndex := ri,
              car_x := f_of_int cfg (fst (roads s ! nat ri)),
              car_y := f_of_int cfg (snd (roads s ! nat ri)),
              direction := fst (uniform_int 0 3 s1)\<rparr>)"
  using assms by (simp add: updateCar_def Let_def rng_defs split: prod.splits)

lemma updateCar_ahead:
  assumes "\<not> blocked cfg s car"
  shows "updateCar cfg car s =
     (car\<lparr>car_x := advance cfg (car_x car) (dx (direction car)) (speed car),
           car_y := advance cfg (car_y car) (dy (direction car)) (speed car)\<rparr>, s)"
  using assms by (simp add: updateCar_def)

lemma uniform_index:
  "xs \<noteq> [] \<Longrightarrow> 0 \<le> fst (uniform_int 0 (int (length xs) - 1) s)
     \<and> nat (fst (uniform_int 0 (int (length xs) - 1) s)) < length xs"
proof -
  assume "xs \<noteq> []"
  then have "(0::int) \<le> int (length xs) - 1" by (cases xs) simp_all
  from uniform_int_range[OF this, of s] show ?thesis by linarith
qed

lemma truncate_rat_simps [simp]:
  "truncate_rat 0 = 0" "truncate_rat (of_int n) = n"
  by (simp_all add: truncate_rat_def)

subsection \<open>Cars stay on roads\<close>

lemma carSound_settled:
  "settled s s' \<Longrightarrow> carSound cfg s car \<Longrightarrow> carSound cfg s' car"
proof -
  assume st: "settled s s'" and c: "carSound cfg s car"
  let ?p = "(f_trunc cfg (car_x car), f_trunc cfg (car_y car))"
  from c have "grid s ?p = ROAD" by (simp add: carSound_def carOnRoad_def)
  then have "grid s ?p \<noteq> EMPTY" by simp
  with st have "grid s' ?p = grid s ?p" unfolding settled_def by blast
  with c show ?thesis by (simp add: carSound_def carOnRoad_def)
qed

lemma carSound_same_grid:
  "grid s' = grid s \<Longrightarrow> carSound cfg s' car = carSound cfg s car"
  by (simp add: carSound_def carOnRoad_def)

lemma on_road_entry:
  assumes fs: "floatsSound cfg" and rv: "roadsValid cfg s" and re: "roadsExact s"
    and i: "i < length (roads s)"
  shows "carOnRoad cfg s (car\<lparr>car_x := f_of_int cfg (fst (roads s ! i)),
                               car_y := f_of_int cfg (snd (roads s ! i))\<rparr>)"
proof -
  let ?p = "roads s ! i"
  have m: "?p \<in> set (roads s)" using i by simp
  then have v: "isValidCell cfg (fst ?p) (snd ?p)" using rv by (simp add: roadsValid_def)
  have g: "grid s ?p = ROAD" using m re by (auto simp: roadsExact_def)
  have "0 \<le> fst ?p \<and> fst ?p < max (GRID_WIDTH cfg) (GRID_HEIGHT cfg)"
    and "0 \<le> snd ?p \<and> snd ?p < max (GRID_WIDTH cfg) (GRID_HEIGHT cfg)"
    using v by (auto simp: isValidCell_def)
  then have "f_trunc cfg (f_of_int cfg (fst ?p)) = fst ?p"
    and "f_trunc cfg (f_of_int cfg (snd ?p)) = snd ?p"
    using fs unfolding floatsSound_def by blast+
  then show ?thesis using v g by (simp add: carOnRoad_def)
qed

lemma updateCar_carSound:
  assumes fs: "floatsSound cfg" and rv: "roadsValid cfg s" and re: "roadsExact s"
    and ne: "roads s \<noteq> []" and c: "carSound cfg s car"
  shows "carSound cfg s (fst (updateCar cfg car s))"
proof (cases "blocked cfg s car")
  case False
  then have "carOnRoad cfg s (fst (updateCar cfg car s))"
    by (simp add: updateCar_ahead blocked_def Let_def carOnRoad_def)
  moreover have "speed (fst (updateCar cfg car s)) = speed car"
    using False by (simp add: updateCar_ahead)
  ultimately show ?thesis using c by (simp add: carSound_def)
next
  case True
  show ?thesis
  proof (cases "possibleDirs cfg s car = []")
    case True
    note pd = this
    let ?ri = "fst (uniform_int 0 (int (length (roads s)) - 1) s)"
    have i: "nat ?ri < length (roads s)" using uniform_index[OF ne, of s] by simp
    have "carOnRoad cfg s (fst (updateCar cfg car s))"
      using on_road_entry[OF fs rv re i]
      unfolding updateCar_teleport[OF \<open>blocked cfg s car\<close> pd] Let_def
      by (simp add: carOnRoad_def)
    moreover have "speed (fst (updateCar cfg car s)) = speed car"
      unfolding updateCar_teleport[OF \<open>blocked cfg s car\<close> pd] Let_def by simp
    ultimately show ?thesis using c by (simp add: carSound_def)
  next
    case False
    note pd = this
    let ?d = "possibleDirs cfg s car
                ! nat (fst (uniform_int 0 (int (length (possibleDirs cfg s car)) - 1) s))"
    let ?tx = "f_trunc cfg (car_x car)" and ?ty = "f_trunc cfg (car_y car)"
    let ?nx = "f_trunc cfg (advance cfg (car_x car) (dx ?d) (speed car))"
    let ?ny = "f_trunc cfg (advance cfg (car_y car) (dy ?d) (speed car))"
    have "?d \<in> set (possibleDirs cfg s car)" using uniform_index[OF pd, of s] by simp
    then have d: "?d \<in> {0, 1, 2, 3}"
      and tv: "isValidCell cfg (?tx + dx ?d) (?ty + dy ?d)"
      and tg: "grid s (?tx + dx ?d, ?ty + dy ?d) = ROAD"
      unfolding possibleDirs_set by blast+
    from c have cv: "isValidCell cfg ?tx ?ty" and cg: "grid s (?tx, ?ty) = ROAD"
      by (simp_all add: carSound_def carOnRoad_def)
    from c obtain r where sp: "speed car = f_speed cfg r" by (auto simp: carSound_def)
    have bx: "0 \<le> ?tx \<and> ?tx < max (GRID_WIDTH cfg) (GRID_HEIGHT cfg)"
      and "by": "0 \<le> ?ty \<and> ?ty < max (GRID_WIDTH cfg) (GRID_HEIGHT cfg)"
      using cv by (auto simp: isValidCell_def)
    have off: "dx ?d \<in> {-1, 0, 1}" "dy ?d \<in> {-1, 0, 1}"
      using dx_dy_cardinal[OF d] by auto
    have nx: "?nx \<in> {?tx, ?tx + dx ?d}"
      using fs bx off(1) unfolding floatsSound_def sp by blast
    have ny: "?ny \<in> {?ty, ?ty + dy ?d}"
      using fs "by" off(2) unfolding floatsSound_def sp by blast
    have "(?nx, ?ny) = (?tx, ?ty) \<or> (?nx, ?ny) = (?tx + dx ?d, ?ty + dy ?d)"
      using nx ny dx_dy_cardinal[OF d] by auto
    then have "isValidCell cfg ?nx ?ny \<and> grid s (?nx, ?ny) = ROAD"
      using cv cg tv tg by auto
    then have "carOnRoad cfg s (fst (updateCar cfg car s))"
      unfolding updateCar_reroute[OF \<open>blocked cfg s car\<close> pd] Let_def
      by (simp add: carOnRoad_def)
    moreover have "speed (fst (updateCar cfg car s)) = speed car"
      unfolding updateCar_reroute[OF \<open>blocked cfg s car\<close> pd] Let_def by simp
    ultimately show ?thesis using c by (simp add: carSound_def)
  qed
qed

lemma roadsValid_redrawn: "redrawn s t \<Longrightarrow> roadsValid cfg t = roadsValid cfg s"
  by (auto simp: redrawn_def roadsValid_def)

lemma roadsExact_redrawn: "redrawn s t \<Longrightarrow> roadsExact t = roadsExact s"
  by (auto simp: redrawn_def roadsExact_def)

lemma moveCars_carSound:
  assumes fs: "floatsSound cfg" and rv: "roadsValid cfg s" and re: "roadsExact s"
    and ne: "roads s \<noteq> []" and c: "\<forall>car\<in>set cs. carSound cfg s car"
  shows "\<forall>car\<in>set (fst (moveCars cfg cs s)). carSound cfg s car"
  using rv re ne c
proof (induction cs arbitrary: s)
  case Nil
  then show ?case by simp
next
  case (Cons car cs)
  obtain car' s1 where u: "updateCar cfg car s = (car', s1)" by fastforce
  obtain cs' s2 where m: "moveCars cfg cs s1 = (cs', s2)" by fastforce
  have r1: "redrawn s s1" using updateCar_redrawn[of s cfg car] u by simp
  then have g1: "grid s1 = grid s" and ro1: "roads s1 = roads s"
    by (simp_all add: redrawn_fields)
  have head: "carSound cfg s car'"
    using updateCar_carSound[OF fs Cons.prems(1,2,3), of car] Cons.prems(4) u by simp
  have "\<forall>c\<in>set cs. carSound cfg s1 c"
    using Cons.prems(4) by (simp add: carSound_same_grid[OF g1])
  then have "\<forall>c\<in>set (fst (moveCars cfg cs s1)). carSound cfg s1 c"
    using Cons.prems(1,2,3) r1 ro1
    by (intro Cons.IH) (simp_all add: roadsValid_redrawn roadsExact_redrawn)
  then have "\<forall>c\<in>set cs'. carSound cfg s c"
    using m by (simp add: carSound_same_grid[OF g1])
  with head show ?case using u m by simp
qed

lemma trafficSound_drawn [simp]: "trafficSound cfg (s\<lparr>drawn := n\<rparr>) = trafficSound cfg s"
  by (simp add: trafficSound_def roadsValid_def carSound_def carOnRoad_def)

lemma addRandomCar_cars:
  "roads s \<noteq> [] \<Longrightarrow>
   \<exists>r d ri col. cars (addRandomCar cfg s) = cars s @
      [\<lparr>car_x = f_of_int cfg (fst (roads s ! nat (fst (uniform_int 0 (int (length (roads s)) - 1) s)))),
        car_y = f_of_int cfg (snd (roads s ! nat (fst (uniform_int 0 (int (length (roads s)) - 1) s)))),
        speed = f_speed cfg r, direction = d, roadIndex = ri, color = col\<rparr>]"
  by (simp add: addRandomCar_def rng_defs split: prod.splits) blast

lemma addRandomCar_trafficSound:
  assumes fs: "floatsSound cfg" and re: "roadsExact s" and t: "trafficSound cfg s"
  shows "trafficSound cfg (addRandomCar cfg s)"
proof (cases "roads s = []")
  case True
  with t show ?thesis by (simp add: addRandomCar_def)
next
  case False
  let ?ri = "fst (uniform_int 0 (int (length (roads s)) - 1) s)"
  have i: "nat ?ri < length (roads s)" using uniform_index[OF False, of s] by simp
  from t have rv: "roadsValid cfg s" by (simp add: trafficSound_def)
  from addRandomCar_cars[OF False, of cfg] obtain r d ri col where
    eq: "cars (addRandomCar cfg s) = cars s @
      [\<lparr>car_x = f_of_int cfg (fst (roads s ! nat ?ri)),
        car_y = f_of_int cfg (snd (roads s ! nat ?ri)),
        speed = f_speed cfg r, direction = d, roadIndex = ri, color = col\<rparr>]" by blast
  let ?new = "\<lparr>car_x = f_of_int cfg (fst (roads s ! nat ?ri)),
        car_y = f_of_int cfg (snd (roads s ! nat ?ri)),
        speed = f_speed cfg r, direction = d, roadIndex = ri, color = col\<rparr>"
  have "carOnRoad cfg s ?new"
    using on_road_entry[OF fs rv re i, of ?new] by (simp add: carOnRoad_def)
  then have "carSound cfg s ?new" by (simp add: carSound_def)
  then have "\<forall>c\<in>set (cars (addRandomCar cfg s)). carSound cfg (addRandomCar cfg s) c"
    using t unfolding eq
    by (auto simp: trafficSound_def carSound_same_grid[of "addRandomCar cfg s" s])
  moreover have "roadsValid cfg (addRandomCar cfg s)" using rv by (simp add: roadsValid_def)
  ultimately show ?thesis by (simp add: trafficSound_def)
qed

lemma updateCars_trafficSound:
  assumes fs: "floatsSound cfg" and re: "roadsExact s" and t: "trafficSound cfg s"
  shows "trafficSound cfg (updateCars cfg s)"
proof (cases "roads s = []")
  case True
  with t show ?thesis by (simp add: updateCars_def)
next
  case False
  from t have rv: "roadsValid cfg s" and c: "\<forall>car\<in>set (cars s). carSound cfg s car"
    by (simp_all add: trafficSound_def)
  obtain cs s1 where m: "moveCars cfg (cars s) s = (cs, s1)" by fastforce
  have "redrawn s s1" using moveCars_redrawn[of s cfg "cars s"] m by simp
  then obtain n where s1: "s1 = s\<lparr>drawn := n\<rparr>" by (auto simp: redrawn_def)
  have cs: "\<forall>car\<in>set cs. carSound cfg s car"
    using moveCars_carSound[OF fs rv re False c] m by simp
  let ?s3 = "s\<lparr>cars := cs, drawn := Suc n\<rparr>"
  have t3: "trafficSound cfg ?s3"
    using rv cs by (simp add: trafficSound_def roadsValid_def carSound_def carOnRoad_def)
  have re3: "roadsExact ?s3" using re by (simp add: roadsExact_def)
  have "trafficSound cfg (addRandomCar cfg ?s3)"
    by (rule addRandomCar_trafficSound[OF fs re3 t3])
  then show ?thesis using False m s1 t3 by (simp add: updateCars_def Let_def rng_defs)
qed

lemma trafficSound_settled:
  assumes "settled s s'" and "cars s' = cars s" and "roadsValid cfg s'"
    and "trafficSound cfg s"
  shows "trafficSound cfg s'"
  using assms by (auto simp: trafficSound_def intro: carSound_settled)

lemma extendRoads_roadsValid: "roadsValid cfg s \<Longrightarrow> roadsValid cfg (extendRoads cfg s)"
proof -
  assume rv: "roadsValid cfg s"
  obtain ps n where ps: "set ps \<subseteq> set (roadSpots cfg s)"
    and eq: "extendRoads cfg s = fold claimRoad ps (s\<lparr>drawn := n\<rparr>)"
    using extendRoads_effect[of cfg s] by blast
  have "\<forall>p\<in>set ps. isValidCell cfg (fst p) (snd p)"
    using ps roadSpots_set[of _ cfg s] by blast
  then show ?thesis using rv unfolding eq by (auto simp: roadsValid_def)
qed

lemma growCity_roadsValid: "roadsValid cfg s \<Longrightarrow> roadsValid cfg (growCity cfg s)"
proof -
  assume rv: "roadsValid cfg s"
  then have "roadsValid cfg (matureBuildings cfg (placeBuildings cfg s))"
    by (simp add: roadsValid_def)
  then show ?thesis by (simp add: growCity_def Let_def extendRoads_roadsValid)
qed

lemma growCity_trafficSound: "trafficSound cfg s \<Longrightarrow> trafficSound cfg (growCity cfg s)"
  by (rule trafficSound_settled[OF growCity_settled])
     (simp_all add: growCity_roadsValid trafficSound_def)

lemma trafficSound_step_counter [simp]:
  "trafficSound cfg (s\<lparr>currentStep := n\<rparr>) = trafficSound cfg s"
  by (simp add: trafficSound_def roadsValid_def carSound_def carOnRoad_def)

lemma simulationStep_trafficSound:
  assumes fs: "floatsSound cfg" and re: "roadsExact s" and t: "trafficSound cfg s"
  shows "trafficSound cfg (simulationStep cfg s)"
  using updateCars_trafficSound[OF fs re t]
  by (simp add: simulationStep_def Let_def growCity_trafficSound)

subsection \<open>Cars at initialization\<close>

lemma claimRoad_quiet [simp]: "cars (claimRoadIfEmpty p s) = cars s"
  by (simp add: claimRoadIfEmpty_def)

lemma claimRoadIfEmpty_roadsValid:
  "isValidCell cfg (fst p) (snd p) \<Longrightarrow> roadsValid cfg s \<Longrightarrow> roadsValid cfg (claimRoadIfEmpty p s)"
  by (simp add: claimRoadIfEmpty_def roadsValid_def)

lemma branchWalk_cars [simp]: "cars (branchWalk cfg n d x y s) = cars s"
  by (induction n arbitrary: x y s) (simp_all add: Let_def)

lemma claimRoad_roadsValid:
  "isValidCell cfg (fst p) (snd p) \<Longrightarrow> roadsValid cfg s \<Longrightarrow> roadsValid cfg (claimRoad p s)"
  by (simp add: roadsValid_def)

lemma branchWalk_roadsValid:
  "roadsValid cfg s \<Longrightarrow> roadsValid cfg (branchWalk cfg n d x y s)"
  by (induction n arbitrary: x y s) (simp_all add: Let_def claimRoad_roadsValid)

lemma branchRoad_cars [simp]: "cars (branchRoad cfg i s) = cars s"
  by (simp add: branchRoad_def Let_def rng_defs)

lemma roadsValid_drawn [simp]: "roadsValid cfg (s\<lparr>drawn := n\<rparr>) = roadsValid cfg s"
  by (simp add: roadsValid_def)

lemma branchRoad_roadsValid: "roadsValid cfg s \<Longrightarrow> roadsValid cfg (branchRoad cfg i s)"
  by (simp add: branchRoad_def Let_def rng_defs branchWalk_roadsValid)

lemma fold_claim_cells:
  assumes "\<forall>p\<in>set ps. isValidCell cfg (fst p) (snd p)"
    and "roadsValid cfg s \<and> cars s = []"
  shows "roadsValid cfg (fold claimRoadIfEmpty ps s) \<and> cars (fold claimRoadIfEmpty ps s) = []"
  using assms by (induction ps arbitrary: s) (simp_all add: claimRoadIfEmpty_roadsValid)

lemma generateInitialRoads_trafficSound:
  assumes w: "0 < GRID_WIDTH cfg" and h: "0 < GRID_HEIGHT cfg" and fs: "floatsSound cfg"
    and re: "roadsExact s" and r0: "roads s = []" and c0: "cars s = []"
  shows "trafficSound cfg (generateInitialRoads cfg s)"
proof -
  let ?y = "GRID_HEIGHT cfg div 2" and ?x = "GRID_WIDTH cfg div 2"
  let ?s1 = "fold (\<lambda>x. claimRoadIfEmpty (x, ?y)) [0..GRID_WIDTH cfg - 1] s"
  let ?s2 = "fold (\<lambda>y. claimRoadIfEmpty (?x, y)) [0..GRID_HEIGHT cfg - 1] ?s1"
  let ?s3 = "fold (branchRoad cfg) [0..<INITIAL_ROADS cfg] ?s2"
  let ?P = "\<lambda>t. roadsValid cfg t \<and> cars t = []"
  have p0: "?P s" using r0 c0 by (simp add: roadsValid_def)
  have yv: "0 \<le> ?y \<and> ?y < GRID_HEIGHT cfg" using h by simp
  have xv: "0 \<le> ?x \<and> ?x < GRID_WIDTH cfg" using w by simp
  have s1: "?s1 = fold claimRoadIfEmpty (map (\<lambda>x. (x, ?y)) [0..GRID_WIDTH cfg - 1]) s"
    by (simp add: fold_map comp_def)
  have s2: "?s2 = fold claimRoadIfEmpty (map (\<lambda>y. (?x, y)) [0..GRID_HEIGHT cfg - 1]) ?s1"
    by (simp add: fold_map comp_def)
  have p1: "?P ?s1" unfolding s1 using yv
    by (intro fold_claim_cells p0) (auto simp: isValidCell_def)
  have p2: "?P ?s2" unfolding s2 using xv
    by (intro fold_claim_cells p1) (auto simp: isValidCell_def)
  have p3: "?P ?s3"
    by (rule fold_preserves[where P = ?P]) (simp_all add: branchRoad_roadsValid p2)
  have re3: "roadsExact ?s3"
    by (intro fold_preserves[where P = roadsExact]
        claimRoadIfEmpty_roadsExact branchRoad_roadsExact re)
  have t3: "roadsExact ?s3 \<and> trafficSound cfg ?s3" using p3 re3 by (simp add: trafficSound_def)
  have "roadsExact ((addRandomCar cfg ^^ 15) ?s3) \<and> trafficSound cfg ((addRandomCar cfg ^^ 15) ?s3)"
    by (rule funpow_preserves[where P = "\<lambda>t. roadsExact t \<and> trafficSound cfg t"])
       (simp_all add: addRandomCar_roadsExact addRandomCar_trafficSound[OF fs] t3)
  then show ?thesis by (simp add: generateInitialRoads_def Let_def)
qed

lemma run_trafficSound:
  assumes "0 < GRID_WIDTH cfg" and "0 < GRID_HEIGHT cfg" and "floatsSound cfg"
  shows "trafficSound cfg (run cfg g n)"
proof (induction n)
  case 0
  have t: "terrainOnly (terrainState cfg g)" by (rule terrainState_terrainOnly)
  then have "roadsExact (terrainState cfg g)" by (simp add: terrainOnly_def roadsExact_def)
  then show ?case unfolding run_0 using t
    by (intro generateInitialRoads_trafficSound assms) (simp_all add: terrainOnly_def)
next
  case (Suc n)
  then show ?case unfolding run_Suc
    by (intro simulationStep_trafficSound assms run_roadsExact)
qed

lemma trafficSound_carsOnRoad: "trafficSound cfg s \<Longrightarrow> carsOnRoad cfg s"
  by (simp add: trafficSound_def carsOnRoad_def carSound_def)

subsection \<open>Rounding to binary32\<close>

lemma normalise_value:
  "normalise x k = (x', k') \<Longrightarrow> x' * 2 powi k' = x * 2 powi k"
proof (induction x k arbitrary: x' k' rule: normalise.induct)
  case (1 x k)
  show ?case
  proof (cases "2 ^ 24 \<le> x")
    case True
    then have "normalise (x / 2) (k + 1) = (x', k')" using "1.prems" by (simp add: normalise.simps[of x k])
    then have "x' * 2 powi k' = x / 2 * 2 powi (k + 1)" using True by (rule "1.IH"(1)[rotated])
    then show ?thesis by (simp add: power_int_add)
  next
    case False
    show ?thesis
    proof (cases "x < 2 ^ 23 \<and> - 149 < k")
      case True
      then have "normalise (2 * x) (k - 1) = (x', k')"
        using "1.prems" False by (simp add: normalise.simps[of x k])
      then have "x' * 2 powi k' = 2 * x * 2 powi (k - 1)" using False True by (rule "1.IH"(2)[rotated -1])
      then show ?thesis by (simp add: power_int_diff)
    next
      case f: False
      have "normalise x k = (x, k)" using False f by (subst normalise.simps) auto
      then show ?thesis using "1.prems" by simp
    qed
  qed
qed

lemma normalise_bounds:
  "normalise x k = (x', k') \<Longrightarrow> - 149 \<le> k \<Longrightarrow> 0 \<le> x \<Longrightarrow>
   x' < 2 ^ 24 \<and> 0 \<le> x' \<and> - 149 \<le> k' \<and> (2 ^ 23 \<le> x' \<or> k' = - 149)"
proof (induction x k arbitrary: x' k' rule: normalise.induct)
  case (1 x k)
  show ?case
  proof (cases "2 ^ 24 \<le> x")
    case True
    then have "normalise (x / 2) (k + 1) = (x', k')" using "1.prems" by (simp add: normalise.simps[of x k])
    then show ?thesis using "1.IH"(1)[OF True, of x' k'] "1.prems" by simp
  next
    case False
    show ?thesis
    proof (cases "x < 2 ^ 23 \<and> - 149 < k")
      case True
      then have "normalise (2 * x) (k - 1) = (x', k')"
        using "1.prems" False by (simp add: normalise.simps[of x k])
      then show ?thesis using "1.IH"(2)[OF False True, of x' k'] "1.prems" True by simp
    next
      case f: False
      have "normalise x k = (x, k)" using False f by (subst normalise.simps) auto
      then have "x' = x" "k' = k" using "1.prems" by simp_all
      then show ?thesis using "1.prems" False f by auto
    qed
  qed
qed

lemma roundHalfEven_of_int [simp]: "roundHalfEven (of_int n) = n"
  by (simp add: roundHalfEven_def)

lemma roundHalfEven_range: "\<lfloor>x\<rfloor> \<le> roundHalfEven x \<and> roundHalfEven x \<le> \<lfloor>x\<rfloor> + 1"
  by (simp add: roundHalfEven_def Let_def)

lemma roundHalfEven_mono: "x \<le> y \<Longrightarrow> roundHalfEven x \<le> roundHalfEven y"
proof -
  assume xy: "x \<le> y"
  then have f: "\<lfloor>x\<rfloor> \<le> \<lfloor>y\<rfloor>" by (rule floor_mono)
  show ?thesis
  proof (cases "\<lfloor>x\<rfloor> = \<lfloor>y\<rfloor>")
    case True
    then show ?thesis using xy by (auto simp: roundHalfEven_def Let_def)
  next
    case False
    then have "\<lfloor>x\<rfloor> + 1 \<le> \<lfloor>y\<rfloor>" using f by simp
    then show ?thesis using roundHalfEven_range[of x] roundHalfEven_range[of y] by linarith
  qed
qed

lemma round32_0 [simp]: "round32 0 = 0"
  by (simp add: round32_def split: prod.split)

lemma round32_minus: "round32 (- q) = - round32 q"
  by (simp add: round32_def sgn_minus split: prod.split)

lemma round32_pos:
  assumes "0 < q"
  obtains x k where "normalise q 0 = (x, k)" "round32 q = of_int (roundHalfEven x) * 2 powi k"
    "x * 2 powi k = q" "x < 2 ^ 24" "0 \<le> x" "- 149 \<le> k" "2 ^ 23 \<le> x \<or> k = - 149"
proof -
  obtain x k where n: "normalise q 0 = (x, k)" by (cases "normalise q 0")
  have "round32 q = of_int (roundHalfEven x) * 2 powi k"
    using assms n by (simp add: round32_def)
  moreover have "x * 2 powi k = q" using normalise_value[OF n] by simp
  moreover have "x < 2 ^ 24 \<and> 0 \<le> x \<and> - 149 \<le> k \<and> (2 ^ 23 \<le> x \<or> k = - 149)"
    using normalise_bounds[OF n] assms by simp
  ultimately show thesis using that n by blast
qed

lemma pow2_pos [simp]: "0 < (2::rat) powi k"
  by (simp add: zero_less_power_int)

lemma pow2_mono: "j \<le> k \<Longrightarrow> (2::rat) powi j \<le> 2 powi k"
  by (rule power_int_increasing) simp_all

lemma round32_exact_pos:
  assumes m: "0 < m" "m < 2 ^ 24" and j: "- 149 \<le> j"
  shows "round32 (of_int m * 2 powi j) = of_int m * 2 powi j"
proof -
  let ?q = "of_int m * (2::rat) powi j"
  have qpos: "0 < ?q" using m by simp
  from round32_pos[OF qpos] obtain x k where
    r: "round32 ?q = of_int (roundHalfEven x) * 2 powi k" and
    v: "x * 2 powi k = ?q" and b: "x < 2 ^ 24" "- 149 \<le> k" "2 ^ 23 \<le> x \<or> k = - 149"
    by blast
  have kj: "k \<le> j"
  proof (rule ccontr)
    assume "\<not> k \<le> j"
    then have jk: "j + 1 \<le> k" by simp
    then have "k \<noteq> - 149" using j by simp
    then have x: "2 ^ 23 \<le> x" using b by simp
    have "(2::rat) powi (j + 1) \<le> 2 powi k" using jk by (rule pow2_mono)
    then have "2 ^ 23 * (2 * (2::rat) powi j) \<le> x * 2 powi k"
      using x by (intro mult_mono) (simp_all add: power_int_add)
    then have "2 ^ 24 * (2::rat) powi j \<le> of_int m * 2 powi j" using v by simp
    then have "(2::rat) ^ 24 \<le> of_int m" by simp
    then have "(2::int) ^ 24 \<le> m" by (simp only: numeral_power_le_of_int_cancel_iff)
    then show False using m by simp
  qed
  have "x = ?q / 2 powi k" using v by (simp add: field_simps)
  also have "\<dots> = of_int m * 2 powi (j - k)" by (simp add: power_int_diff)
  also have "\<dots> = of_int (m * 2 ^ nat (j - k))" using kj by (simp add: power_int_def)
  finally have "x = of_int (m * 2 ^ nat (j - k))" .
  then have "of_int (roundHalfEven x) = x" by (simp only: roundHalfEven_of_int)
  then show ?thesis using r v by simp
qed

lemma round32_exact:
  assumes m: "\<bar>m\<bar> < 2 ^ 24" and j: "- 149 \<le> j"
  shows "round32 (of_int m * 2 powi j) = of_int m * 2 powi j"
proof -
  consider "0 < m" | "m = 0" | "m < 0" by linarith
  then show ?thesis
  proof cases
    case 1
    then show ?thesis using m j by (intro round32_exact_pos) simp_all
  next
    case 2
    then show ?thesis by simp
  next
    case 3
    then have "round32 (of_int (- m) * 2 powi j) = of_int (- m) * 2 powi j"
      using m j by (intro round32_exact_pos) simp_all
    then show ?thesis using round32_minus[of "of_int m * 2 powi j"] by simp
  qed
qed

lemma round32_nonneg: "0 \<le> q \<Longrightarrow> 0 \<le> round32 q"
proof (cases "q = 0")
  case True
  then show ?thesis by simp
next
  case False
  assume "0 \<le> q"
  then have "0 < q" using False by simp
  from round32_pos[OF this] obtain x k where
    r: "round32 q = of_int (roundHalfEven x) * 2 powi k" and x: "0 \<le> x" by blast
  have "roundHalfEven 0 \<le> roundHalfEven x" using x by (rule roundHalfEven_mono)
  then have "0 \<le> roundHalfEven x" using roundHalfEven_of_int[of 0] by simp
  then show ?thesis unfolding r by simp
qed

lemma round32_mono_pos:
  assumes "0 < a" "a \<le> b"
  shows "round32 a \<le> round32 b"
proof -
  from round32_pos[OF assms(1)] obtain xa ka where
    ra: "round32 a = of_int (roundHalfEven xa) * 2 powi ka" and
    va: "xa * 2 powi ka = a" and ba: "xa < 2 ^ 24" "- 149 \<le> ka" "2 ^ 23 \<le> xa \<or> ka = - 149"
    by blast
  have "0 < b" using assms by simp
  from round32_pos[OF this] obtain xb kb where
    rb: "round32 b = of_int (roundHalfEven xb) * 2 powi kb" and
    vb: "xb * 2 powi kb = b" and bb: "xb < 2 ^ 24" "- 149 \<le> kb" "2 ^ 23 \<le> xb \<or> kb = - 149"
    by blast
  have le: "ka \<le> kb"
  proof (rule ccontr)
    assume "\<not> ka \<le> kb"
    then have k: "kb + 1 \<le> ka" by simp
    then have "ka \<noteq> - 149" using bb by simp
    then have x: "2 ^ 23 \<le> xa" using ba by simp
    have "(2::rat) powi (kb + 1) \<le> 2 powi ka" using k by (rule pow2_mono)
    then have "2 ^ 23 * (2 * (2::rat) powi kb) \<le> xa * 2 powi ka"
      using x by (intro mult_mono) (simp_all add: power_int_add)
    then have "2 ^ 24 * (2::rat) powi kb \<le> xb * 2 powi kb" using va vb assms by simp
    then have "2 ^ 24 \<le> xb" by simp
    then show False using bb by simp
  qed
  show ?thesis
  proof (cases "ka = kb")
    case True
    have "xa * 2 powi kb \<le> xb * 2 powi kb" using va vb assms True by simp
    then have "xa \<le> xb" by simp
    then have "roundHalfEven xa \<le> roundHalfEven xb" by (rule roundHalfEven_mono)
    then show ?thesis unfolding ra rb True by simp
  next
    case False
    then have k: "ka + 1 \<le> kb" using le by simp
    then have "kb \<noteq> - 149" using ba by simp
    then have "2 ^ 23 \<le> xb" using bb by simp
    then have "roundHalfEven (of_int (2 ^ 23)) \<le> roundHalfEven xb"
      by (intro roundHalfEven_mono) simp
    then have lb: "2 ^ 23 \<le> roundHalfEven xb" by (simp only: roundHalfEven_of_int)
    have "roundHalfEven xa \<le> roundHalfEven (of_int (2 ^ 24))"
      using ba by (intro roundHalfEven_mono) simp
    then have ua: "roundHalfEven xa \<le> 2 ^ 24" by (simp only: roundHalfEven_of_int)
    have "of_int (roundHalfEven xa) * (2::rat) powi ka \<le> 2 ^ 24 * 2 powi ka"
      using ua by (intro mult_right_mono) (simp_all add: of_int_le_numeral_power_cancel_iff)
    also have "\<dots> = 2 ^ 23 * 2 powi (ka + 1)" by (simp add: power_int_add)
    also have "\<dots> \<le> 2 ^ 23 * 2 powi kb" using k by (intro mult_left_mono pow2_mono) simp_all
    also have "\<dots> \<le> of_int (roundHalfEven xb) * 2 powi kb"
      using lb by (intro mult_right_mono) (simp_all add: numeral_power_le_of_int_cancel_iff)
    finally show ?thesis unfolding ra rb .
  qed
qed

lemma round32_mono: "a \<le> b \<Longrightarrow> round32 a \<le> round32 b"
proof -
  assume ab: "a \<le> b"
  consider "0 < a" | "a \<le> 0" "0 \<le> b" | "b < 0" using ab by linarith
  then show ?thesis
  proof cases
    case 1
    then show ?thesis using ab by (rule round32_mono_pos)
  next
    case 2
    have "round32 a \<le> 0" using round32_nonneg[of "- a"] 2 by (simp add: round32_minus)
    then show ?thesis using round32_nonneg[OF 2(2)] by simp
  next
    case 3
    then have "round32 (- b) \<le> round32 (- a)" using ab by (intro round32_mono_pos) simp_all
    then show ?thesis by (simp add: round32_minus)
  qed
qed

lemma round32_idem: "round32 (round32 q) = round32 q"
proof -
  have pos: "round32 (round32 q) = round32 q" if "0 < q" for q
  proof -
    from round32_pos[OF that] obtain x k where
      r: "round32 q = of_int (roundHalfEven x) * 2 powi k" and
      b: "x < 2 ^ 24" "0 \<le> x" "- 149 \<le> k"
      by blast
    have "roundHalfEven x \<le> roundHalfEven (of_int (2 ^ 24))"
      using b by (intro roundHalfEven_mono) simp
    then have u: "roundHalfEven x \<le> 2 ^ 24" by (simp only: roundHalfEven_of_int)
    have "roundHalfEven (of_int 0) \<le> roundHalfEven x" using b by (intro roundHalfEven_mono) simp
    then have l: "0 \<le> roundHalfEven x" by (simp only: roundHalfEven_of_int)
    show ?thesis
    proof (cases "roundHalfEven x = 2 ^ 24")
      case True
      have "round32 q = of_int (2 ^ 23) * 2 powi (k + 1)" unfolding r True by (simp add: power_int_add)
      moreover have "round32 (of_int (2 ^ 23) * 2 powi (k + 1)) = of_int (2 ^ 23) * 2 powi (k + 1)"
        using b by (intro round32_exact) simp_all
      ultimately show ?thesis by simp
    next
      case False
      then have "\<bar>roundHalfEven x\<bar> < 2 ^ 24" using u l by simp
      then show ?thesis unfolding r using b by (intro round32_exact) simp_all
    qed
  qed
  consider "0 < q" | "q = 0" | "q < 0" by linarith
  then show ?thesis
  proof cases
    case 1
    then show ?thesis by (rule pos)
  next
    case 2
    then show ?thesis by simp
  next
    case 3
    then have "round32 (round32 (- q)) = round32 (- q)" by (intro pos) simp
    then show ?thesis by (simp add: round32_minus)
  qed
qed



subsection \<open>The float operations of the configuration\<close>

lemma rat_b32 [simp]: "rat_of_binary32 (b32 q) = round32 q"
  unfolding b32_def by (rule Abs_binary32_inverse) (simp add: round32_idem)

lemma round32_rat [simp]: "round32 (rat_of_binary32 a) = rat_of_binary32 a"
  using rat_of_binary32[of a] by simp

lemma round32_of_int: "\<bar>n\<bar> < 2 ^ 24 \<Longrightarrow> round32 (of_int n) = of_int n"
  using round32_exact[of n 0] by simp

lemma round32_half: "\<bar>n\<bar> < 2 ^ 24 \<Longrightarrow> round32 (of_int n / 2) = of_int n / 2"
  using round32_exact[of n "- 1"] by (simp add: power_int_minus)

lemma round32_dyadic [simp]:
  "round32 1 = 1" "round32 (1 / 2) = 1 / 2" "round32 (1 / 4) = 1 / 4" "round32 (1 / 16) = 1 / 16"
  "round32 4294967296 = 4294967296"
  using round32_exact[of 1 0] round32_exact[of 1 "- 1"] round32_exact[of 1 "- 2"]
    round32_exact[of 1 "- 4"] round32_exact[of 1 32]
  by (simp_all add: power_int_minus)

lemma truncate_rat_mono: "a \<le> b \<Longrightarrow> truncate_rat a \<le> truncate_rat b"
proof -
  assume ab: "a \<le> b"
  consider "0 \<le> a" | "a < 0" "0 \<le> b" | "b < 0" using ab by linarith
  then show ?thesis
  proof cases
    case 1
    then show ?thesis using ab by (simp add: truncate_rat_def floor_mono)
  next
    case 2
    then have f: "0 \<le> \<lfloor>- a\<rfloor>" "0 \<le> \<lfloor>b\<rfloor>" by simp_all
    have "truncate_rat a = - \<lfloor>- a\<rfloor>" "truncate_rat b = \<lfloor>b\<rfloor>"
      using 2 by (simp_all add: truncate_rat_def)
    then show ?thesis using f by linarith
  next
    case 3
    then have "\<lfloor>- b\<rfloor> \<le> \<lfloor>- a\<rfloor>" using ab by (intro floor_mono) simp
    then show ?thesis using 3 ab by (simp add: truncate_rat_def)
  qed
qed

lemma floor_int_half: "\<lfloor>of_int n + 1 / 2 :: rat\<rfloor> = n"
  by (rule floor_unique) simp_all

lemma truncate_rat_half:
  "0 \<le> c \<Longrightarrow> truncate_rat (of_int (2 * c + 3) / 2) = c + 1"
  "1 \<le> c \<Longrightarrow> truncate_rat (of_int (2 * c - 1) / 2) = c - 1"
  "truncate_rat (of_int (- 3) / 2) = - 1"
proof -
  have e1: "of_int (2 * c + 3) / 2 = (of_int (c + 1) + 1 / 2 :: rat)" by (simp add: field_simps)
  have e2: "of_int (2 * c - 1) / 2 = (of_int (c - 1) + 1 / 2 :: rat)" by (simp add: field_simps)
  have e3: "- (of_int (- 3) / 2) = (of_int 1 + 1 / 2 :: rat)" by simp
  show "0 \<le> c \<Longrightarrow> truncate_rat (of_int (2 * c + 3) / 2) = c + 1"
    unfolding truncate_rat_def e1 floor_int_half by simp
  show "1 \<le> c \<Longrightarrow> truncate_rat (of_int (2 * c - 1) / 2) = c - 1"
    unfolding truncate_rat_def e2 floor_int_half by simp
  have "\<not> (0::rat) \<le> of_int (- 3) / 2" by simp
  then show "truncate_rat (of_int (- 3) / 2) = - 1"
    unfolding truncate_rat_def e3 floor_int_half by simp
qed

text \<open>Every speed the distribution returns lies between 0 and one half.\<close>

lemma canonical32_bounds:
  "0 \<le> r \<Longrightarrow> r < 2 ^ 32 \<Longrightarrow>
   0 \<le> rat_of_binary32 (canonical32 r) \<and> rat_of_binary32 (canonical32 r) \<le> 1"
proof -
  assume r: "0 \<le> r" "r < 2 ^ 32"
  have c0: "0 \<le> round32 (of_int r)" using r by (intro round32_nonneg) simp
  have "round32 (of_int r) \<le> round32 (2 ^ 32)" using r by (intro round32_mono) simp
  then have c1: "round32 (of_int r) \<le> 2 ^ 32" by simp
  have "round32 (round32 (of_int r) / 2 ^ 32) \<le> round32 1"
    using c1 by (intro round32_mono) simp
  moreover have "0 \<le> round32 (round32 (of_int r) / 2 ^ 32)"
    using c0 by (intro round32_nonneg) simp
  moreover have "round32 (1 - 1 / 2 ^ 24) \<le> round32 1" by (intro round32_mono) simp
  moreover have "0 \<le> round32 (1 - 1 / 2 ^ 24)" by (intro round32_nonneg) simp
  ultimately show ?thesis
    by (simp add: canonical32_def div32_def of_int32_def Let_def)
qed

lemma speed32_bounds:
  "0 \<le> rat_of_binary32 (speed32 r) \<and> rat_of_binary32 (speed32 r) \<le> 1 / 2"
proof -
  let ?c = "rat_of_binary32 (canonical32 (r mod 2 ^ 32))"
  have c: "0 \<le> ?c" "?c \<le> 1" using canonical32_bounds[of "r mod 2 ^ 32"] by simp_all
  have a0: "0 \<le> round32 (1 / 20)" by (intro round32_nonneg) simp
  have "round32 (1 / 20) \<le> round32 (1 / 16)" by (intro round32_mono) simp
  then have a1: "round32 (1 / 20) \<le> 1 / 16" by simp
  have "round32 (1 / 16) \<le> round32 (1 / 5)" by (intro round32_mono) simp
  then have b0: "1 / 16 \<le> round32 (1 / 5)" by simp
  have "round32 (1 / 5) \<le> round32 (1 / 4)" by (intro round32_mono) simp
  then have b1: "round32 (1 / 5) \<le> 1 / 4" by simp
  let ?w = "round32 (round32 (1 / 5) - round32 (1 / 20))"
  have w0: "0 \<le> ?w" using a1 b0 by (intro round32_nonneg) simp
  have "?w \<le> round32 (1 / 4)" using a0 b1 by (intro round32_mono) simp
  then have w1: "?w \<le> 1 / 4" by simp
  let ?t = "round32 (?c * ?w)"
  have t0: "0 \<le> ?t" using c w0 by (intro round32_nonneg) simp
  have "?c * ?w \<le> 1 * (1 / 4)" using c w0 w1 by (intro mult_mono) simp_all
  then have "?t \<le> round32 (1 / 4)" by (intro round32_mono) simp
  then have t1: "?t \<le> 1 / 4" by simp
  have s0: "0 \<le> round32 (?t + round32 (1 / 20))" using t0 a0 by (intro round32_nonneg) simp
  have "round32 (?t + round32 (1 / 20)) \<le> round32 (1 / 2)"
    using t1 a1 by (intro round32_mono) simp
  then have s1: "round32 (?t + round32 (1 / 20)) \<le> 1 / 2" by simp
  show ?thesis using s0 s1 by (simp add: speed32_def add32_def mul32_def sub32_def)
qed

text \<open>One step of a car: the offset times the speed is exact, the sum is rounded once.\<close>

lemma advance32:
  assumes "off \<in> {- 1, 0, 1}"
  shows "rat_of_binary32 (advance ((binary32Config w h)\<lparr>f_speed := spd\<rparr>) pos off sp)
       = round32 (rat_of_binary32 pos + of_int off * rat_of_binary32 sp)"
proof -
  have o: "round32 (of_int off) = of_int off" using assms by (intro round32_of_int) auto
  have "round32 (of_int off * rat_of_binary32 sp) = of_int off * rat_of_binary32 sp"
    using assms round32_minus[of "rat_of_binary32 sp"] by auto
  then show ?thesis
    by (simp add: advance_def binary32Config_def add32_def mul32_def of_int32_def o)
qed

lemma truncate_rat_cell:
  assumes "0 \<le> truncate_rat p"
  shows "p < of_int (truncate_rat p) + 1"
    and "1 \<le> truncate_rat p \<Longrightarrow> of_int (truncate_rat p) \<le> p"
    and "- 1 < p"
  using assms unfolding truncate_rat_def by (auto split: if_splits; linarith)+

text \<open>
  Binary32 arithmetic is sound on grids of up to \<open>2 ^ 22\<close> cells a side, for every
  speed distribution that returns speeds between 0 and one half, however the library
  computes them: rounding is monotone and exact on the half-integers of that range.
\<close>

lemma binary32_floatsSound_speeds:
  assumes w: "w \<le> 2 ^ 22" and h: "h \<le> 2 ^ 22"
    and spd: "\<And>r. 0 \<le> rat_of_binary32 (spd r) \<and> rat_of_binary32 (spd r) \<le> 1 / 2"
  shows "floatsSound ((binary32Config w h)\<lparr>f_speed := spd\<rparr>)"
  unfolding floatsSound_def
proof (intro conjI allI impI)
  let ?cfg = "(binary32Config w h)\<lparr>f_speed := spd\<rparr>"
  fix n :: int
  assume "0 \<le> n \<and> n < max (GRID_WIDTH ?cfg) (GRID_HEIGHT ?cfg)"
  then have "\<bar>n\<bar> < 2 ^ 24" using w h by (auto simp: binary32Config_def)
  then show "f_trunc ?cfg (f_of_int ?cfg n) = n"
    by (simp add: binary32Config_def trunc32_def of_int32_def round32_of_int)
next
  fix pos :: binary32 and r :: int and off :: int
  let ?cfg = "(binary32Config w h)\<lparr>f_speed := spd\<rparr>"
  assume a: "0 \<le> f_trunc ?cfg pos \<and> f_trunc ?cfg pos < max (GRID_WIDTH ?cfg) (GRID_HEIGHT ?cfg)
    \<and> off \<in> {- 1, 0, 1}"
  define p where "p = rat_of_binary32 pos"
  define c where "c = truncate_rat p"
  define v where "v = rat_of_binary32 (spd r)"
  have c: "0 \<le> c" "c < 2 ^ 22"
    using a w h by (auto simp: c_def p_def binary32Config_def trunc32_def)
  have v: "0 \<le> v" "v \<le> 1 / 2" using spd[of r] by (simp_all add: v_def)
  have rp: "round32 p = p" by (simp add: p_def)
  have hi: "p < of_int c + 1" and lo: "1 \<le> c \<Longrightarrow> of_int c \<le> p" and lo0: "- 1 < p"
    using truncate_rat_cell[of p] c by (simp_all add: c_def)
  have adv: "f_trunc ?cfg (advance ?cfg pos off (f_speed ?cfg r))
      = truncate_rat (round32 (p + of_int off * v))"
    using a advance32[where off = off and w = w and h = h and spd = spd and pos = pos and sp = "spd r"]
    by (simp add: binary32Config_def trunc32_def p_def v_def)
  have tc: "f_trunc ?cfg pos = c" by (simp add: binary32Config_def trunc32_def c_def p_def)
  consider "off = 0" | "off = 1" | "off = - 1" using a by auto
  then have "truncate_rat (round32 (p + of_int off * v)) \<in> {c, c + off}"
  proof cases
    case 1
    then show ?thesis by (simp add: rp c_def)
  next
    case 2
    have "round32 p \<le> round32 (p + v)" using v by (intro round32_mono) simp
    then have "truncate_rat p \<le> truncate_rat (round32 (p + v))"
      unfolding rp by (rule truncate_rat_mono)
    then have l: "c \<le> truncate_rat (round32 (p + v))" by (simp add: c_def)
    have e: "round32 (of_int (2 * c + 3) / 2) = of_int (2 * c + 3) / 2"
      using c by (intro round32_half) simp
    have "round32 (p + v) \<le> round32 (of_int (2 * c + 3) / 2)"
      using hi v by (intro round32_mono) simp
    then have "truncate_rat (round32 (p + v)) \<le> truncate_rat (of_int (2 * c + 3) / 2)"
      unfolding e by (rule truncate_rat_mono)
    moreover have "truncate_rat (of_int (2 * c + 3) / 2) = c + 1"
      using c by (intro truncate_rat_half)
    ultimately show ?thesis using l 2 by simp linarith
  next
    case 3
    have "round32 (p - v) \<le> round32 p" using v by (intro round32_mono) simp
    then have "truncate_rat (round32 (p - v)) \<le> truncate_rat p"
      unfolding rp by (rule truncate_rat_mono)
    then have u: "truncate_rat (round32 (p - v)) \<le> c" by (simp add: c_def)
    have l: "c - 1 \<le> truncate_rat (round32 (p - v))"
    proof (cases "1 \<le> c")
      case True
      have e: "round32 (of_int (2 * c - 1) / 2) = of_int (2 * c - 1) / 2"
        using c by (intro round32_half) simp
      have "round32 (of_int (2 * c - 1) / 2) \<le> round32 (p - v)"
        using lo[OF True] v by (intro round32_mono) simp
      then have "truncate_rat (of_int (2 * c - 1) / 2) \<le> truncate_rat (round32 (p - v))"
        unfolding e by (rule truncate_rat_mono)
      moreover have "truncate_rat (of_int (2 * c - 1) / 2) = c - 1"
        using True by (intro truncate_rat_half)
      ultimately show ?thesis by simp
    next
      case False
      then have c0: "c = 0" using c by simp
      have e: "round32 (of_int (- 3) / 2) = of_int (- 3) / 2"
        by (intro round32_half) simp
      have "round32 (of_int (- 3) / 2) \<le> round32 (p - v)"
        using lo0 v by (intro round32_mono) simp
      then have "truncate_rat (of_int (- 3) / 2) \<le> truncate_rat (round32 (p - v))"
        unfolding e by (rule truncate_rat_mono)
      moreover have "truncate_rat (of_int (- 3) / 2) = - 1"
        by (rule truncate_rat_half)
      ultimately show ?thesis using c0 by simp
    qed
    show ?thesis using l u 3 by simp linarith
  qed
  then show "f_trunc ?cfg (advance ?cfg pos off (f_speed ?cfg r))
      \<in> {f_trunc ?cfg pos, f_trunc ?cfg pos + off}"
    unfolding adv tc .
qed

text \<open>The program's own distribution is such a one.\<close>

lemma binary32_floatsSound:
  assumes "w \<le> 2 ^ 22" and "h \<le> 2 ^ 22"
  shows "floatsSound (binary32Config w h)"
proof -
  have "(binary32Config w h)\<lparr>f_speed := speed32\<rparr> = binary32Config w h"
    by (simp add: binary32Config_def)
  then show ?thesis
    using binary32_floatsSound_speeds[OF assms, of speed32] speed32_bounds by simp
qed

lemma city_dims [simp]: "GRID_WIDTH cityConfig = 80" "GRID_HEIGHT cityConfig = 45"
  by (simp_all add: cityConfig_def binary32Config_def)

lemma cityConfig_floatsSound: "floatsSound cityConfig"
  unfolding cityConfig_def by (rule binary32_floatsSound) simp_all

subsection \<open>When the road extension runs\<close>

lemma simulationStep_cases:
  "simulationStep cfg s =
     (if currentStep s mod 3 = 0 \<and> currentStep s mod 10 = 0
      then tickWithExtension cfg s else tickWithoutExtension cfg s)"
  by (simp add: simulationStep_def tickWithExtension_def tickWithoutExtension_def
      growCity_def Let_def)

lemma tickWithoutExtension_roads: "roads (tickWithoutExtension cfg s) = roads s"
  by (simp add: tickWithoutExtension_def Let_def)

lemma extendRoads_length:
  "length (roads (extendRoads cfg s))
     = length (roads s) + min (nat (1 + currentStep s div 100)) (length (roadSpots cfg s))"
proof -
  obtain ps n where
    len: "length ps = min (nat (1 + currentStep s div 100)) (length (roadSpots cfg s))"
    and eq: "extendRoads cfg s = fold claimRoad ps (s\<lparr>drawn := n\<rparr>)"
    using extendRoads_effect[of cfg s] by blast
  show ?thesis unfolding eq using len by simp
qed

text \<open>In the hamlet, whatever the placement phase does, a road candidate remains.\<close>

lemma hamlet_fields:
  "roads hamletState = [(0, 0)]" "currentStep hamletState = 10" "cars hamletState = []"
  "grid hamletState (0, 0) = ROAD" "grid hamletState (1, 1) = RESIDENTIAL"
  "grid hamletState (1, 0) = EMPTY" "grid hamletState (0, 1) = EMPTY"
  by (simp_all add: hamletState_def stateOf_def)

lemma city_valid [simp]:
  "isValidCell cityConfig x y \<longleftrightarrow> 0 \<le> x \<and> x < 80 \<and> 0 \<le> y \<and> y < 45"
  by (simp add: isValidCell_def cityConfig_def binary32Config_def)

lemma hamlet_extension_adds:
  "roads (tickWithExtension cityConfig hamletState) \<noteq> roads hamletState"
proof -
  let ?s1 = "updateCars cityConfig hamletState"
  let ?s2 = "placeBuildings cityConfig ?s1"
  let ?s3 = "matureBuildings cityConfig ?s2"
  obtain ps n where sub: "set ps \<subseteq> set (buildingSpots cityConfig ?s1)"
    and len: "length ps = min (nat (1 + currentStep ?s1 div 50)) (length (buildingSpots cityConfig ?s1))"
    and eq: "?s2 = fold (placeBuilding cityConfig) ps (?s1\<lparr>drawn := n\<rparr>)"
    using placeBuildings_effect[of cityConfig ?s1] by blast
  have "length ps \<le> 1" using len by (simp add: hamlet_fields)
  then have "ps = [] \<or> (\<exists>a. ps = [a])"
    by (cases ps) simp_all
  moreover have "(1::int, 0::int) \<noteq> (0, 1)" by simp
  ultimately have one: "(1, 0) \<notin> set ps \<or> (0, 1) \<notin> set ps"
    by (metis empty_iff empty_set set_ConsD)
  have keep: "grid ?s2 q = grid hamletState q" if "q \<notin> set ps" for q
    using fold_placeBuilding_out[OF that, of cityConfig "?s1\<lparr>drawn := n\<rparr>"]
    by (simp add: eq[symmetric])
  have notin: "q \<notin> set ps" if "grid hamletState q \<noteq> EMPTY" for q
    using sub that by (auto simp: buildingSpots_set)
  have road: "grid ?s2 (0, 0) = ROAD" and house: "grid ?s2 (1, 1) = RESIDENTIAL"
    using keep notin by (simp_all add: hamlet_fields)
  have cells: "(1, 1) \<in> set (allCells cityConfig)" by (simp add: allCells_set)
  have "\<exists>p. p \<in> set (roadSpots cityConfig ?s3)"
  proof -
    from one show ?thesis
    proof
      assume "(1, 0) \<notin> set ps"
      then have e: "grid ?s2 (1, 0) = EMPTY" using keep by (simp add: hamlet_fields)
      have nr: "nearRoad cityConfig ?s3 (1, 0)"
        unfolding nearRoad_def list_ex_iff
        by (rule bexI[of _ 0]) (simp_all add: dx_def dy_def road)
      have "(1, 0) \<in> set (roadSpots cityConfig ?s3)"
        unfolding roadSpots_set using e nr cells house
        by (auto simp: dx_def dy_def intro!: bexI[of _ "(1, 1)"] bexI[of _ 3])
      then show ?thesis by blast
    next
      assume "(0, 1) \<notin> set ps"
      then have e: "grid ?s2 (0, 1) = EMPTY" using keep by (simp add: hamlet_fields)
      have nr: "nearRoad cityConfig ?s3 (0, 1)"
        unfolding nearRoad_def list_ex_iff
        by (rule bexI[of _ 3]) (simp_all add: dx_def dy_def road)
      have "(0, 1) \<in> set (roadSpots cityConfig ?s3)"
        unfolding roadSpots_set using e nr cells house
        by (auto simp: dx_def dy_def intro!: bexI[of _ "(1, 1)"] bexI[of _ 0])
      then show ?thesis by blast
    qed
  qed
  then have "roadSpots cityConfig ?s3 \<noteq> []" by auto
  then have "min (Suc 0) (length (roadSpots cityConfig ?s3)) = Suc 0"
    by (cases "roadSpots cityConfig ?s3") simp_all
  then have "length (roads (extendRoads cityConfig ?s3)) = length (roads ?s3) + 1"
    unfolding extendRoads_length by (simp add: hamlet_fields)
  then have "length (roads (tickWithExtension cityConfig hamletState))
      = length (roads hamletState) + 1"
    by (simp add: tickWithExtension_def Let_def)
  then show ?thesis by auto
qed

subsection \<open>Without roads\<close>

lemma shuffle_Nil [simp]: "shuffle [] s = ([], s)"
  by (simp add: shuffle_def)

lemma buildingSpots_no_roads: "roads s = [] \<Longrightarrow> buildingSpots cfg s = []"
  by (simp add: buildingSpots_def)

lemma roadSpots_no_roads:
  assumes "\<forall>p. isValidCell cfg (fst p) (snd p) \<longrightarrow> grid s p \<noteq> ROAD"
  shows "roadSpots cfg s = []"
proof -
  have "\<not> nearRoad cfg s n" for n
    using assms unfolding nearRoad_def list_ex_iff by auto
  then have "p \<notin> set (roadSpots cfg s)" for p
    unfolding roadSpots_set by blast
  then show ?thesis by (cases "roadSpots cfg s") (simp, fastforce)
qed

lemma growCity_no_roads:
  assumes "roads s = []" and "\<forall>p. isValidCell cfg (fst p) (snd p) \<longrightarrow> grid s p \<noteq> ROAD"
  shows "placeBuildings cfg s = s" and "growCity cfg s = matureBuildings cfg s"
proof -
  show p: "placeBuildings cfg s = s"
    using assms(1) by (simp add: placeBuildings_def buildingSpots_no_roads)
  have "roadSpots cfg (matureBuildings cfg s) = []"
    using assms(2) by (intro roadSpots_no_roads) simp
  then have "extendRoads cfg (matureBuildings cfg s) = matureBuildings cfg s"
    by (simp add: extendRoads_def)
  then show "growCity cfg s = matureBuildings cfg s"
    by (simp add: growCity_def Let_def p)
qed

lemma matureCell_ages:
  "grid s p \<noteq> EMPTY \<and> grid s p \<noteq> ROAD \<and> grid s p \<noteq> WATER \<Longrightarrow>
   age (buildings (matureCell p s) p) = age (buildings s p) + 1"
  by (simp add: matureCell_def)

lemma fold_matureCell_ages:
  "p \<in> set cs \<Longrightarrow> grid s p \<noteq> EMPTY \<and> grid s p \<noteq> ROAD \<and> grid s p \<noteq> WATER \<Longrightarrow>
   age (buildings s p) + 1 \<le> age (buildings (fold matureCell cs s) p)"
proof (induction cs arbitrary: s)
  case Nil
  then show ?case by simp
next
  case (Cons c cs)
  show ?case
  proof (cases "c = p")
    case True
    have "age (buildings s p) + 1 = age (buildings (matureCell p s) p)"
      using Cons.prems(2) by (simp add: matureCell_ages)
    also have "\<dots> \<le> age (buildings (fold matureCell cs (matureCell p s)) p)"
      by (rule fold_matureCell_age)
    finally show ?thesis using True by simp
  next
    case False
    then have "p \<in> set cs" using Cons.prems(1) by simp
    then have "age (buildings (matureCell c s) p) + 1
        \<le> age (buildings (fold matureCell cs (matureCell c s)) p)"
      using Cons.prems(2) by (intro Cons.IH) simp_all
    moreover have "age (buildings s p) \<le> age (buildings (matureCell c s) p)"
      by (rule matureCell_age)
    ultimately show ?thesis by simp
  qed
qed

lemma wood_fields:
  "roads woodState = []" "grid woodState (0, 0) = FOREST"
  "age (buildings woodState (0, 0)) = 0"
  "\<forall>p. grid woodState p \<noteq> ROAD"
  by (simp_all add: woodState_def stateOf_def emptyBuilding_def)

subsection \<open>Two placements on one cell\<close>

lemma placeBuilding_drawn:
  "drawn (placeBuilding cfg p s) =
     (if chooseType cfg s (fst p) (snd p) (fst (uniform_int 0 100 s)) = RESIDENTIAL
         \<or> chooseType cfg s (fst p) (snd p) (fst (uniform_int 0 100 s)) = COMMERCIAL
      then drawn s + 4 else drawn s + 3)"
  by (simp add: placeBuilding_def Let_def rng_defs split: prod.splits)

lemma specType_low: "r < 60 \<Longrightarrow> specType r w g step = RESIDENTIAL"
  by (simp add: specType_def Let_def)

lemma specType_high: "85 \<le> r \<Longrightarrow> r \<le> 95 \<Longrightarrow> specType r w g step = INDUSTRIAL"
  by (simp add: specType_def Let_def)

lemma corner_fields:
  "roads cornerState = [(1, 0), (0, 1)]" "currentStep cornerState = 51"
  "drawn cornerState = 0"
  "gen cornerState = (\<lambda>n. if n = 1 then 10 else if n = 4 then 50 else if n = 5 then 90 else 0)"
  "grid cornerState (0, 0) = EMPTY"
  by (simp_all add: cornerState_def stateOf_def)

lemma cornerShuffled_fields:
  "currentStep cornerShuffled = 51" "drawn cornerShuffled = 1"
  "gen cornerShuffled = (\<lambda>n. if n = 1 then 10 else if n = 4 then 50 else if n = 5 then 90 else 0)"
  by (simp_all add: cornerShuffled_def corner_fields)

lemma corner_spots: "buildingSpots cityConfig cornerState = [(0, 0), (0, 0)]"
  by (simp add: buildingSpots_def cornerState_def stateOf_def dx_def dy_def)

lemma corner_shuffle:
  "shuffle [(0, 0), (0, 0)] cornerState = ([(0::int, 0::int), (0, 0)], cornerShuffled)"
  by (simp add: shuffle_def rng_defs swap_at_def corner_fields cornerShuffled_def)

lemma corner_placements:
  "placeBuildings cityConfig cornerState = placeBuilding cityConfig (0, 0) cornerPlacedOnce"
  by (simp add: placeBuildings_def corner_spots corner_shuffle cornerShuffled_fields Let_def
      cornerPlacedOnce_def)

lemma corner_first_roll: "fst (uniform_int 0 100 cornerShuffled) = 10"
  by (simp add: rng_defs cornerShuffled_fields)

lemma corner_first:
  "chooseType cityConfig cornerShuffled 0 0 (fst (uniform_int 0 100 cornerShuffled)) = RESIDENTIAL"
  by (simp add: chooseType_spec specType_low corner_first_roll)

lemma cornerPlacedOnce_fields:
  "drawn cornerPlacedOnce = 5"
  "gen cornerPlacedOnce = (\<lambda>n. if n = 1 then 10 else if n = 4 then 50 else if n = 5 then 90 else 0)"
  "btype (buildings cornerPlacedOnce (0, 0)) = RESIDENTIAL"
  "grid cornerPlacedOnce (0, 0) = RESIDENTIAL"
  using corner_first
  by (simp_all add: cornerPlacedOnce_def placeBuilding_drawn cornerShuffled_fields)

lemma corner_second_roll: "fst (uniform_int 0 100 cornerPlacedOnce) = 90"
  by (simp add: rng_defs cornerPlacedOnce_fields)

lemma corner_second:
  "chooseType cityConfig cornerPlacedOnce 0 0 (fst (uniform_int 0 100 cornerPlacedOnce))
     = INDUSTRIAL"
  by (simp add: chooseType_spec specType_high corner_second_roll)

subsection \<open>The buildings of one invocation\<close>

lemma isBuilding_not_EMPTY: "isBuilding t \<Longrightarrow> t \<noteq> EMPTY"
  by (auto simp: isBuilding_def)

lemma growCity_admitted:
  "\<exists>ps. set ps \<subseteq> set (buildingSpots cfg s)
      \<and> length ps = min (nat (1 + currentStep s div 50)) (length (buildingSpots cfg s))
      \<and> {p. grid s p = EMPTY \<and> isBuilding (grid (growCity cfg s) p)} = set ps"
proof -
  obtain ps n where sub: "set ps \<subseteq> set (buildingSpots cfg s)"
    and len: "length ps = min (nat (1 + currentStep s div 50)) (length (buildingSpots cfg s))"
    and eq: "placeBuildings cfg s = fold (placeBuilding cfg) ps (s\<lparr>drawn := n\<rparr>)"
    using placeBuildings_effect[of cfg s] by blast
  let ?s3 = "matureBuildings cfg (placeBuildings cfg s)"
  have inn: "isBuilding (grid ?s3 q) \<and> grid s q = EMPTY" if "q \<in> set ps" for q
    using fold_placeBuilding_in[OF that, of cfg "s\<lparr>drawn := n\<rparr>"] sub that
    by (auto simp: eq buildingSpots_set)
  have out: "grid ?s3 q = grid s q" if "q \<notin> set ps" for q
    using fold_placeBuilding_out[OF that, of cfg "s\<lparr>drawn := n\<rparr>"] by (simp add: eq)
  have ext: "grid (extendRoads cfg ?s3) q = grid ?s3 q \<or>
             (grid ?s3 q = EMPTY \<and> grid (extendRoads cfg ?s3) q = ROAD)" for q
  proof -
    obtain rs m where rsub: "set rs \<subseteq> set (roadSpots cfg ?s3)"
      and req: "extendRoads cfg ?s3 = fold claimRoad rs (?s3\<lparr>drawn := m\<rparr>)"
      using extendRoads_effect[of cfg ?s3] by blast
    show ?thesis
    proof (cases "q \<in> set rs")
      case True
      then have "grid ?s3 q = EMPTY" using rsub by (auto simp: roadSpots_set)
      then show ?thesis using True by (simp add: req)
    next
      case False
      then show ?thesis by (simp add: req)
    qed
  qed
  have fin: "grid (growCity cfg s) q = grid ?s3 q \<or>
             (grid ?s3 q = EMPTY \<and> grid (growCity cfg s) q = ROAD)" for q
    using ext[of q] by (simp add: growCity_def Let_def)
  have "{p. grid s p = EMPTY \<and> isBuilding (grid (growCity cfg s) p)} = set ps"
  proof (intro set_eqI iffI)
    fix q assume "q \<in> {p. grid s p = EMPTY \<and> isBuilding (grid (growCity cfg s) p)}"
    then have e: "grid s q = EMPTY" and b: "isBuilding (grid (growCity cfg s) q)" by simp_all
    show "q \<in> set ps"
    proof (rule ccontr)
      assume "q \<notin> set ps"
      then have "grid ?s3 q = EMPTY" using out e by simp
      then have "grid (growCity cfg s) q = EMPTY \<or> grid (growCity cfg s) q = ROAD"
        using fin[of q] by auto
      then show False using b isBuilding_not_EMPTY isBuilding_not_ROAD by auto
    qed
  next
    fix q assume q: "q \<in> set ps"
    from inn[OF q] have b: "isBuilding (grid ?s3 q)" and e: "grid s q = EMPTY" by simp_all
    from b have "grid ?s3 q \<noteq> EMPTY" by (rule isBuilding_not_EMPTY)
    then have "grid (growCity cfg s) q = grid ?s3 q" using fin[of q] by auto
    then show "q \<in> {p. grid s p = EMPTY \<and> isBuilding (grid (growCity cfg s) p)}"
      using b e by simp
  qed
  with sub len show ?thesis by blast
qed

lemma unit_step_adjacent:
  "d \<in> {0, 1, 2, 3} \<Longrightarrow> adjacent4 (fst r + dx d, snd r + dy d) r"
  using dx_dy_cardinal[of d] by (auto simp: adjacent4_def)

lemma rowRoad_fields:
  "currentStep (rowRoadState g k cs) = 0"
  "set (roads (rowRoadState g k cs)) = {p. snd p = 5 \<and> 0 \<le> fst p \<and> fst p < 10}"
  "grid (rowRoadState g k cs) p = (if snd p = 5 \<and> 0 \<le> fst p \<and> fst p < 10 then ROAD else EMPTY)"
  by (auto simp: rowRoadState_def)

subsection \<open>Counters stay small\<close>

lemma allCells_distinct: "distinct (allCells cfg)"
proof -
  have "allCells cfg = List.product [0..GRID_WIDTH cfg - 1] [0..GRID_HEIGHT cfg - 1]"
    by (simp add: allCells_def product_concat_map)
  then show ?thesis by (simp add: distinct_product)
qed

lemma matureCell_age_other: "q \<noteq> p \<Longrightarrow> age (buildings (matureCell p s) q) = age (buildings s q)"
  by (simp add: matureCell_def)

lemma fold_matureCell_age_out:
  "q \<notin> set cs \<Longrightarrow> age (buildings (fold matureCell cs s) q) = age (buildings s q)"
  by (induction cs arbitrary: s) (auto simp: matureCell_age_other)

lemma fold_matureCell_age_le:
  "distinct cs \<Longrightarrow> age (buildings (fold matureCell cs s) q) \<le> age (buildings s q) + 1"
proof (induction cs arbitrary: s)
  case Nil
  show ?case by simp
next
  case (Cons c cs)
  show ?case
  proof (cases "q = c")
    case True
    then have "q \<notin> set cs" using Cons.prems by simp
    then have "age (buildings (fold matureCell cs (matureCell c s)) q)
        = age (buildings (matureCell c s) q)"
      by (rule fold_matureCell_age_out)
    then show ?thesis using matureCell_age(2)[of c s q] by simp
  next
    case False
    have "age (buildings (fold matureCell cs (matureCell c s)) q)
        \<le> age (buildings (matureCell c s) q) + 1"
      using Cons.prems by (intro Cons.IH) simp
    then show ?thesis using False by (simp add: matureCell_age_other)
  qed
qed

lemma fold_placeBuilding_age:
  "0 \<le> age (buildings s q) \<Longrightarrow>
   0 \<le> age (buildings (fold (placeBuilding cfg) ps s) q)
   \<and> age (buildings (fold (placeBuilding cfg) ps s) q) \<le> age (buildings s q)"
proof (induction ps arbitrary: s)
  case Nil
  then show ?case by simp
next
  case (Cons p ps)
  have a: "0 \<le> age (buildings (placeBuilding cfg p s) q)
      \<and> age (buildings (placeBuilding cfg p s) q) \<le> age (buildings s q)"
    using Cons.prems by (cases "q = p") (simp_all add: placeBuilding_other)
  from Cons.IH[of "placeBuilding cfg p s"] a show ?case by simp
qed

lemma growCity_age:
  assumes "0 \<le> age (buildings s q)"
  shows "0 \<le> age (buildings (growCity cfg s) q)
     \<and> age (buildings (growCity cfg s) q) \<le> age (buildings s q) + 1"
proof -
  obtain ps n where eq: "placeBuildings cfg s = fold (placeBuilding cfg) ps (s\<lparr>drawn := n\<rparr>)"
    using placeBuildings_effect[of cfg s] by blast
  have p: "0 \<le> age (buildings (placeBuildings cfg s) q)
      \<and> age (buildings (placeBuildings cfg s) q) \<le> age (buildings s q)"
    unfolding eq using fold_placeBuilding_age[of "s\<lparr>drawn := n\<rparr>" q cfg ps] assms by simp
  have m1: "age (buildings (placeBuildings cfg s) q)
      \<le> age (buildings (matureBuildings cfg (placeBuildings cfg s)) q)"
    unfolding matureBuildings_def by (rule fold_matureCell_age)
  have m2: "age (buildings (matureBuildings cfg (placeBuildings cfg s)) q)
      \<le> age (buildings (placeBuildings cfg s) q) + 1"
    unfolding matureBuildings_def by (rule fold_matureCell_age_le[OF allCells_distinct])
  show ?thesis using p m1 m2 by (simp add: growCity_def Let_def)
qed

lemma simulationStep_agesBounded: "agesBounded s \<Longrightarrow> agesBounded (simulationStep cfg s)"
proof -
  assume a: "agesBounded s"
  have "0 \<le> age (buildings (simulationStep cfg s) q)
      \<and> age (buildings (simulationStep cfg s) q) \<le> currentStep s + 1" for q
  proof -
    from a have "0 \<le> age (buildings s q) \<and> age (buildings s q) \<le> currentStep s"
      unfolding agesBounded_def by blast
    then have q: "0 \<le> age (buildings (updateCars cfg s) q)"
      and b: "age (buildings (updateCars cfg s) q) \<le> currentStep s"
      by simp_all
    from growCity_age[OF q, of cfg] b q show ?thesis
      by (simp add: simulationStep_def Let_def)
  qed
  moreover from a have "0 \<le> currentStep s" unfolding agesBounded_def by blast
  ultimately show ?thesis unfolding agesBounded_def by simp
qed

lemma branchWalk_currentStep [simp]:
  "currentStep (branchWalk cfg n d x y s) = currentStep s"
  by (induction n arbitrary: x y s) (simp_all add: Let_def)

lemma branchRoad_currentStep [simp]: "currentStep (branchRoad cfg i s) = currentStep s"
  by (simp add: branchRoad_def Let_def rng_defs)

lemma claimRoadIfEmpty_currentStep [simp]:
  "currentStep (claimRoadIfEmpty p s) = currentStep s"
  by (simp add: claimRoadIfEmpty_def)

lemma generateInitialRoads_currentStep [simp]:
  "currentStep (generateInitialRoads cfg s) = currentStep s"
proof -
  have "\<And>t. currentStep t = currentStep s \<Longrightarrow>
      currentStep (generateInitialRoads cfg t) = currentStep s"
    unfolding generateInitialRoads_def Let_def
    by (intro funpow_preserves[where P = "\<lambda>t. currentStep t = currentStep s"]
        fold_preserves[where P = "\<lambda>t. currentStep t = currentStep s"]) simp_all
  then show ?thesis by simp
qed

text \<open>
  After \<open>n\<close> ticks the step counter is \<open>n\<close> and every age lies between 0 and \<open>n\<close>;
  densities are at most 3 (\<open>run_densityBounded\<close>). The main loop stops at 10000 steps,
  so the C \<open>int\<close> counters never come near their range's end and the unbounded integers
  of the model compute what the program computes.
\<close>

lemma run_currentStep: "currentStep (run cfg g n) = int n"
proof (induction n)
  case 0
  show ?case
    using terrainState_terrainOnly[of cfg g] by (simp add: run_0 terrainOnly_def)
next
  case (Suc n)
  then show ?case by (simp add: run_Suc)
qed

lemma run_agesBounded: "agesBounded (run cfg g n)"
proof (induction n)
  case 0
  have "terrainOnly (terrainState cfg g)" by (rule terrainState_terrainOnly)
  then have "\<forall>p. age (buildings (terrainState cfg g) p) = 0" unfolding terrainOnly_def by blast
  then show ?case
    unfolding agesBounded_def using run_currentStep[of cfg g 0] by (simp add: run_0)
next
  case (Suc n)
  then show ?case unfolding run_Suc by (rule simulationStep_agesBounded)
qed

lemma run_counters:
  "currentStep (run cfg g n) = int n
   \<and> (\<forall>p. 0 \<le> age (buildings (run cfg g n) p) \<and> age (buildings (run cfg g n) p) \<le> int n)"
  using run_agesBounded[of cfg g n] run_currentStep[of cfg g n]
  unfolding agesBounded_def by simp

subsection \<open>What one maturation pass does to a record\<close>

lemma matureCell_record_other: "q \<noteq> p \<Longrightarrow> buildings (matureCell p s) q = buildings s q"
  by (simp add: matureCell_def ageUp_def promote_def plantTree_def rng_defs split: prod.split)

lemma matureCell_record_terrain:
  "grid s p = EMPTY \<or> grid s p = ROAD \<or> grid s p = WATER \<Longrightarrow> matureCell p s = s"
  by (auto simp: matureCell_def)

lemma fold_matureCell_record:
  "q \<notin> set cs \<or> grid s q = EMPTY \<or> grid s q = ROAD \<or> grid s q = WATER \<Longrightarrow>
   buildings (fold matureCell cs s) q = buildings s q"
proof (induction cs arbitrary: s)
  case Nil
  show ?case by simp
next
  case (Cons c cs)
  have g: "grid (matureCell c s) = grid s" using fold_matureCell_frame(6)[of "[c]" s] by simp
  have "buildings (matureCell c s) q = buildings s q"
  proof (cases "q = c")
    case True
    then have "grid s c = EMPTY \<or> grid s c = ROAD \<or> grid s c = WATER" using Cons.prems by auto
    then show ?thesis by (simp add: matureCell_record_terrain)
  next
    case False
    then show ?thesis by (rule matureCell_record_other)
  qed
  moreover have "buildings (fold matureCell cs (matureCell c s)) q = buildings (matureCell c s) q"
    using Cons.prems by (intro Cons.IH) (auto simp: g)
  ultimately show ?case by simp
qed

lemma matureBuildings_ages:
  assumes "isValidCell cfg (fst p) (snd p)"
    and "grid s p \<noteq> EMPTY \<and> grid s p \<noteq> ROAD \<and> grid s p \<noteq> WATER"
  shows "age (buildings (matureBuildings cfg s) p) = age (buildings s p) + 1"
proof -
  have m: "p \<in> set (allCells cfg)" using assms(1) by (simp add: allCells_set)
  have "age (buildings s p) + 1 \<le> age (buildings (fold matureCell (allCells cfg) s) p)"
    using m assms(2) by (rule fold_matureCell_ages)
  moreover have "age (buildings (fold matureCell (allCells cfg) s) p) \<le> age (buildings s p) + 1"
    by (rule fold_matureCell_age_le[OF allCells_distinct])
  ultimately show ?thesis by (simp add: matureBuildings_def)
qed

lemma matureBuildings_record:
  assumes "\<not> isValidCell cfg (fst p) (snd p) \<or> grid s p = EMPTY \<or> grid s p = ROAD \<or> grid s p = WATER"
  shows "buildings (matureBuildings cfg s) p = buildings s p"
  unfolding matureBuildings_def using assms
  by (intro fold_matureCell_record) (auto simp: allCells_set)

subsection \<open>Terrain generation does produce water\<close>

lemma claimWater_wet: "waterCells s \<noteq> [] \<Longrightarrow> waterCells (claimWater cfg p s) \<noteq> []"
  by (simp add: claimWater_def)

lemma stampWater_wet: "waterCells s \<noteq> [] \<Longrightarrow> waterCells (stampWater cfg x y s) \<noteq> []"
  unfolding stampWater_def
  by (rule fold_preserves[where P = "\<lambda>t. waterCells t \<noteq> []"]) (simp_all add: claimWater_wet)

lemma river_wet: "waterCells s \<noteq> [] \<Longrightarrow> waterCells (river cfg n dir x y s) \<noteq> []"
proof (induction n arbitrary: dir x y s)
  case 0
  then show ?case by simp
next
  case (Suc n)
  have st: "waterCells (stampWater cfg x y (s\<lparr>drawn := k\<rparr>)) \<noteq> []" for k
    using Suc.prems by (simp add: stampWater_wet)
  show ?case
    by (simp add: Let_def rng_defs st Suc.IH split: prod.splits)
qed

lemma lake_wet: "waterCells s \<noteq> [] \<Longrightarrow> waterCells (lake cfg queue n s) \<noteq> []"
proof (induction cfg queue n s rule: lake.induct)
  case (1 cfg n s)
  then show ?case by simp
next
  case (2 cfg p queue s)
  then show ?case by simp
next
  case (3 cfg p queue n s)
  show ?case
  proof (cases "\<not> isValidCell cfg (fst p) (snd p) \<or> grid s p \<noteq> EMPTY")
    case True
    with 3 show ?thesis by simp
  next
    case False
    let ?s1 = "s\<lparr>grid := (grid s)(p := WATER), waterCells := waterCells s @ [p]\<rparr>"
    obtain queue' s2 where e: "expandFrontier 70 p queue ?s1 = (queue', s2)" by fastforce
    have "redrawn ?s1 s2" using expandFrontier_redrawn[of ?s1 70 p queue] e by simp
    then have "waterCells s2 \<noteq> []" by (simp add: redrawn_fields)
    then have "waterCells (lake cfg queue' n s2) \<noteq> []"
      using "3.IH"(2)[OF False refl e[symmetric]] by simp
    then show ?thesis using False e by (simp add: Let_def)
  qed
qed

lemma waterBody_wet: "waterCells s \<noteq> [] \<Longrightarrow> waterCells (waterBody cfg s) \<noteq> []"
  by (simp add: waterBody_def rng_defs river_wet lake_wet)

lemma forest_wet: "waterCells (forest cfg queue n s) = waterCells s"
proof (induction cfg queue n s rule: forest.induct)
  case (1 cfg n s)
  then show ?case by simp
next
  case (2 cfg p queue s)
  then show ?case by simp
next
  case (3 cfg p queue n s)
  show ?case
  proof (cases "\<not> isValidCell cfg (fst p) (snd p) \<or> grid s p \<noteq> EMPTY")
    case True
    with 3 show ?thesis by simp
  next
    case False
    obtain r s0 where g: "gen_next s = (r, s0)" by fastforce
    then have s0: "s0 = s\<lparr>drawn := Suc (drawn s)\<rparr>" by (auto simp: rng_defs)
    let ?s1 = "s0\<lparr>grid := (grid s0)(p := FOREST),
                    buildings := (buildings s0)(p := (buildings s0 p)
                       \<lparr>btype := FOREST, variant := r mod 3\<rparr>)\<rparr>"
    obtain queue' s2 where e: "expandFrontier 60 p queue ?s1 = (queue', s2)" by fastforce
    have "redrawn ?s1 s2" using expandFrontier_redrawn[of ?s1 60 p queue] e by simp
    then have "waterCells s2 = waterCells s" by (simp add: redrawn_fields s0)
    then have "waterCells (forest cfg queue' n s2) = waterCells s"
      using "3.IH"(2)[OF False g[symmetric] refl e[symmetric]] by simp
    then show ?thesis using False e g by (simp add: Let_def)
  qed
qed

lemma forestPatch_wet: "waterCells (forestPatch cfg s) = waterCells s"
  by (simp add: forestPatch_def rng_defs forest_wet)

lemma claimFarm_wet: "waterCells (claimFarm cfg p s) = waterCells s"
  by (simp add: claimFarm_def rng_defs)

lemma farmPatch_wet: "waterCells (farmPatch cfg s) = waterCells s"
proof -
  have "waterCells (fold (claimFarm cfg) cells t) = waterCells t" for cells and t :: "'a sim"
    by (rule fold_preserves[where P = "\<lambda>u. waterCells u = waterCells t"])
       (simp_all add: claimFarm_wet)
  then show ?thesis by (simp add: farmPatch_def rng_defs)
qed

text \<open>On an all-Empty grid of at least 10 by 10 the first water body claims a cell.\<close>

lemma first_stamp:
  assumes "\<forall>p. grid s p = EMPTY" and "isValidCell cfg (x - 1) (y - 1)"
  shows "waterCells (stampWater cfg x y s) \<noteq> []"
proof -
  have c: "waterCells (claimWater cfg (x - 1, y - 1) s) \<noteq> []"
    using assms by (simp add: claimWater_def)
  show ?thesis by (simp add: stampWater_def claimWater_wet c)
qed

lemma first_river:
  assumes "\<forall>p. grid s p = EMPTY" and "isValidCell cfg (x - 1) (y - 1)"
  shows "waterCells (river cfg (Suc m) d x y s) \<noteq> []"
proof -
  have st: "waterCells (stampWater cfg x y (s\<lparr>drawn := j\<rparr>)) \<noteq> []" for j
    using assms by (intro first_stamp) simp_all
  show ?thesis
    by (simp add: Let_def rng_defs st river_wet split: prod.splits)
qed

lemma first_lake:
  assumes "grid s (x, y) = EMPTY" and "isValidCell cfg x y"
  shows "waterCells (lake cfg [(x, y)] (Suc m) s) \<noteq> []"
proof -
  let ?s1 = "s\<lparr>grid := (grid s)((x, y) := WATER), waterCells := waterCells s @ [(x, y)]\<rparr>"
  obtain queue' s2 where ex: "expandFrontier 70 (x, y) [] ?s1 = (queue', s2)" by fastforce
  have "redrawn ?s1 s2" using expandFrontier_redrawn[of ?s1 70 "(x, y)" "[]"] ex by simp
  then have "waterCells s2 \<noteq> []" by (simp add: redrawn_fields)
  then have "waterCells (lake cfg queue' m s2) \<noteq> []" by (rule lake_wet)
  then show ?thesis using assms ex by (simp add: Let_def)
qed

lemma first_waterBody:
  assumes e: "\<forall>p. grid s p = EMPTY" and w: "10 \<le> GRID_WIDTH cfg" and h: "10 \<le> GRID_HEIGHT cfg"
  shows "waterCells (waterBody cfg s) \<noteq> []"
proof -
  define x where "x = fst (uniform_int 5 (GRID_WIDTH cfg - 5) s)"
  define s1 where "s1 = s\<lparr>drawn := Suc (drawn s)\<rparr>"
  define y where "y = fst (uniform_int 5 (GRID_HEIGHT cfg - 5) s1)"
  define s2 where "s2 = s1\<lparr>drawn := Suc (drawn s1)\<rparr>"
  define kind where "kind = fst (uniform_int 0 1 s2)"
  define s3 where "s3 = s2\<lparr>drawn := Suc (drawn s2)\<rparr>"
  have e1: "uniform_int 5 (GRID_WIDTH cfg - 5) s = (x, s1)"
    unfolding x_def s1_def by (rule uniform_int_pair)
  have e2: "uniform_int 5 (GRID_HEIGHT cfg - 5) s1 = (y, s2)"
    unfolding y_def s2_def by (rule uniform_int_pair)
  have e3: "uniform_int 0 1 s2 = (kind, s3)"
    unfolding kind_def s3_def by (rule uniform_int_pair)
  have xr: "5 \<le> x \<and> x \<le> GRID_WIDTH cfg - 5"
    unfolding x_def using w by (intro uniform_int_range) simp
  have yr: "5 \<le> y \<and> y \<le> GRID_HEIGHT cfg - 5"
    unfolding y_def using h by (intro uniform_int_range) simp
  have v: "isValidCell cfg x y" and v1: "isValidCell cfg (x - 1) (y - 1)"
    using xr yr by (simp_all add: isValidCell_def)
  have g3: "grid t = grid s" if "redrawn s3 t" for t
    using that by (simp add: redrawn_fields s3_def s2_def s1_def)
  show ?thesis
  proof (cases "kind = 0")
    case True
    define r1 where "r1 = fst (gen_next s3)"
    define s4 where "s4 = snd (gen_next s3)"
    define r2 where "r2 = fst (gen_next s4)"
    define s5 where "s5 = snd (gen_next s4)"
    have "redrawn s3 s5"
      unfolding s5_def s4_def by (rule redrawn_trans[OF redrawn_gen_next redrawn_gen_next])
    then have g5: "\<forall>p. grid s5 p = EMPTY" using e g3 by simp
    have "0 \<le> r1 mod 20" by simp
    then have "0 < nat (15 + r1 mod 20)" by linarith
    then obtain m where m: "nat (15 + r1 mod 20) = Suc m" using gr0_implies_Suc by blast
    have "waterBody cfg s = river cfg (nat (15 + r1 mod 20)) (r2 mod 4) x y s5"
      unfolding waterBody_def e1 e2 e3 prod.case r1_def r2_def s4_def s5_def
      using True by (simp add: case_prod_beta)
    then show ?thesis unfolding m using first_river[OF g5 v1] by simp
  next
    case False
    define sz where "sz = fst (uniform_int 20 40 s3)"
    define s4 where "s4 = snd (uniform_int 20 40 s3)"
    have "redrawn s3 s4" unfolding s4_def by simp
    then have g4: "grid s4 (x, y) = EMPTY" using e g3 by simp
    have "20 \<le> sz" unfolding sz_def using uniform_int_range[of 20 40 s3] by simp
    then have "0 < nat sz" by linarith
    then obtain m where m: "nat sz = Suc m" using gr0_implies_Suc by blast
    have "waterBody cfg s = lake cfg [(x, y)] (nat sz) s4"
      unfolding waterBody_def e1 e2 e3 prod.case sz_def s4_def
      using False by (simp add: case_prod_beta)
    then show ?thesis unfolding m using first_lake[OF g4 v] by simp
  qed
qed

lemma terrain_has_water:
  assumes w: "10 \<le> GRID_WIDTH cfg" and h: "10 \<le> GRID_HEIGHT cfg"
  shows "waterCells (terrainState cfg g) \<noteq> []"
proof -
  let ?s = "(startup g)\<lparr>grid := (\<lambda>p. EMPTY), buildings := (\<lambda>p. emptyBuilding)\<rparr> :: 'a sim"
  define v1 where "v1 = fst (uniform_int 1 3 ?s)"
  define s2 where "s2 = (waterBody cfg ^^ nat v1) (?s\<lparr>drawn := Suc (drawn ?s)\<rparr>)"
  define v2 where "v2 = fst (uniform_int 2 5 s2)"
  define s4 where "s4 = (forestPatch cfg ^^ nat v2) (s2\<lparr>drawn := Suc (drawn s2)\<rparr>)"
  define v3 where "v3 = fst (uniform_int 1 3 s4)"
  have e1: "uniform_int 1 3 ?s = (v1, ?s\<lparr>drawn := Suc (drawn ?s)\<rparr>)"
    unfolding v1_def by (rule uniform_int_pair)
  have e2: "uniform_int 2 5 s2 = (v2, s2\<lparr>drawn := Suc (drawn s2)\<rparr>)"
    unfolding v2_def by (rule uniform_int_pair)
  have e3: "uniform_int 1 3 s4 = (v3, s4\<lparr>drawn := Suc (drawn s4)\<rparr>)"
    unfolding v3_def by (rule uniform_int_pair)
  have eq: "terrainState cfg g = (farmPatch cfg ^^ nat v3) (s4\<lparr>drawn := Suc (drawn s4)\<rparr>)"
    unfolding terrainState_def generateTerrain_def e1 prod.case Let_def s2_def[symmetric] e2
      s4_def[symmetric] e3 by (rule refl)
  have "1 \<le> v1" unfolding v1_def using uniform_int_range[of 1 3 ?s] by simp
  then have "0 < nat v1" by linarith
  then obtain k where k: "nat v1 = Suc k" using gr0_implies_Suc by blast
  have first: "waterCells (waterBody cfg (?s\<lparr>drawn := Suc (drawn ?s)\<rparr>)) \<noteq> []"
    by (rule first_waterBody[OF _ w h]) simp
  have "waterCells s2 \<noteq> []"
    unfolding s2_def k funpow_Suc_right comp_def
  proof (rule funpow_preserves[where P = "\<lambda>t. waterCells t \<noteq> []"])
    show "waterCells (waterBody cfg (?s\<lparr>drawn := Suc (drawn ?s)\<rparr>)) \<noteq> []" by (rule first)
  qed (rule waterBody_wet)
  then have "waterCells s4 \<noteq> []"
    unfolding s4_def
    by (intro funpow_preserves[where P = "\<lambda>t. waterCells t \<noteq> []"])
       (simp_all add: forestPatch_wet)
  then show ?thesis unfolding eq
    by (intro funpow_preserves[where P = "\<lambda>t. waterCells t \<noteq> []"])
       (simp_all add: farmPatch_wet)
qed

subsection \<open>A run with a road and cars\<close>

lemma steady_uniform_int:
  "gen s = steadyStream \<Longrightarrow>
   uniform_int a b s = (a + 71 mod (b - a + 1), s\<lparr>drawn := Suc (drawn s)\<rparr>)"
  by (simp add: rng_defs steadyStream_def)

lemma steady_expandFrontier:
  "gen s = steadyStream \<Longrightarrow> 60 \<le> chance \<Longrightarrow> chance \<le> 70 \<Longrightarrow>
   expandFrontier chance p queue s = (queue, s\<lparr>drawn := drawn s + 4\<rparr>)"
  by (simp add: expandFrontier_def steady_uniform_int)

lemma corridorFree_drawn [simp]: "corridorFree (s\<lparr>drawn := n\<rparr>) = corridorFree s"
  by (simp add: corridorFree_def)

lemma steady_lake:
  assumes "corridorFree s"
  shows "corridorFree (lake cityConfig [(5, 40)] (Suc m) s)"
proof (cases "grid s (5, 40) = EMPTY")
  case True
  let ?s1 = "s\<lparr>grid := (grid s)((5, 40) := WATER), waterCells := waterCells s @ [(5, 40)]\<rparr>"
  have g: "gen ?s1 = steadyStream" using assms by (simp add: corridorFree_def)
  have "lake cityConfig [(5, 40)] (Suc m) s = lake cityConfig [] m (?s1\<lparr>drawn := drawn ?s1 + 4\<rparr>)"
    using True by (simp add: Let_def steady_expandFrontier[OF g])
  then show ?thesis using assms by (simp add: corridorFree_def)
next
  case False
  then show ?thesis using assms by simp
qed

lemma steady_forest:
  assumes "corridorFree s"
  shows "corridorFree (forest cityConfig [(5, 40)] (Suc m) s)"
proof (cases "grid s (5, 40) = EMPTY")
  case True
  have g: "gen s = steadyStream" using assms by (simp add: corridorFree_def)
  have "corridorFree (forest cityConfig [(5, 40)] (Suc m) s)"
    using True assms
    by (simp add: Let_def gen_next_def steady_expandFrontier g corridorFree_def)
  then show ?thesis .
next
  case False
  then show ?thesis using assms by simp
qed

lemma steady_waterBody: "corridorFree s \<Longrightarrow> corridorFree (waterBody cityConfig s)"
proof -
  assume c: "corridorFree s"
  then have g: "gen s = steadyStream" by (simp add: corridorFree_def)
  have l: "corridorFree (lake cityConfig [(5, 40)] (Suc 27) (s\<lparr>drawn := k\<rparr>))" for k
    using c by (intro steady_lake) simp
  have "nat 28 = Suc 27" by simp
  then show ?thesis
    using l by (simp add: waterBody_def steady_uniform_int g)
qed

lemma steady_forestPatch: "corridorFree s \<Longrightarrow> corridorFree (forestPatch cityConfig s)"
proof -
  assume c: "corridorFree s"
  then have g: "gen s = steadyStream" by (simp add: corridorFree_def)
  have l: "corridorFree (forest cityConfig [(5, 40)] (Suc 17) (s\<lparr>drawn := k\<rparr>))" for k
    using c by (intro steady_forest) simp
  have "nat 18 = Suc 17" by simp
  then show ?thesis
    using l by (simp add: forestPatch_def steady_uniform_int g)
qed

lemma claimFarm_elsewhere:
  "q \<noteq> p \<Longrightarrow> grid (claimFarm cfg p s) q = grid s q"
  by (simp add: claimFarm_def rng_defs)

lemma claimFarm_gen [simp]: "gen (claimFarm cfg p s) = gen s"
  by (simp add: claimFarm_def rng_defs)

lemma fold_claimFarm_elsewhere:
  "q \<notin> set cells \<Longrightarrow>
   grid (fold (claimFarm cfg) cells s) q = grid s q \<and> gen (fold (claimFarm cfg) cells s) = gen s"
  by (induction cells arbitrary: s) (simp_all add: claimFarm_elsewhere)

lemma steady_farmPatch: "corridorFree s \<Longrightarrow> corridorFree (farmPatch cityConfig s)"
proof -
  assume c: "corridorFree s"
  then have g: "gen s = steadyStream" by (simp add: corridorFree_def)
  let ?cells = "concat (map (\<lambda>x. map (\<lambda>y. (5 + x, 40 + y)) [0..(9::int)]) [0..(9::int)])"
  have "(0, 22) \<notin> set ?cells" by auto
  then have "corridorFree (fold (claimFarm cityConfig) ?cells (s\<lparr>drawn := k\<rparr>))" for k
    using fold_claimFarm_elsewhere[of "(0, 22)" ?cells cityConfig "s\<lparr>drawn := k\<rparr>"] c
    by (simp add: corridorFree_def)
  then show ?thesis
    by (simp add: farmPatch_def steady_uniform_int g)
qed

lemma steady_terrain: "corridorFree (terrainState cityConfig steadyStream)"
proof -
  let ?s = "(startup steadyStream)\<lparr>grid := (\<lambda>p. EMPTY), buildings := (\<lambda>p. emptyBuilding)\<rparr>
             :: binary32 sim"
  have c0: "corridorFree ?s" by (simp add: corridorFree_def startup_def)
  have w: "corridorFree ((waterBody cityConfig ^^ k) u)" if "corridorFree u" for k u
    using that by (intro funpow_preserves[where P = corridorFree] steady_waterBody)
  have f: "corridorFree ((forestPatch cityConfig ^^ k) u)" if "corridorFree u" for k u
    using that by (intro funpow_preserves[where P = corridorFree] steady_forestPatch)
  have m: "corridorFree ((farmPatch cityConfig ^^ k) u)" if "corridorFree u" for k u
    using that by (intro funpow_preserves[where P = corridorFree] steady_farmPatch)
  define v1 where "v1 = fst (uniform_int 1 3 ?s)"
  define s2 where "s2 = (waterBody cityConfig ^^ nat v1) (?s\<lparr>drawn := Suc (drawn ?s)\<rparr>)"
  define v2 where "v2 = fst (uniform_int 2 5 s2)"
  define s4 where "s4 = (forestPatch cityConfig ^^ nat v2) (s2\<lparr>drawn := Suc (drawn s2)\<rparr>)"
  define v3 where "v3 = fst (uniform_int 1 3 s4)"
  have e1: "uniform_int 1 3 ?s = (v1, ?s\<lparr>drawn := Suc (drawn ?s)\<rparr>)"
    unfolding v1_def by (rule uniform_int_pair)
  have e2: "uniform_int 2 5 s2 = (v2, s2\<lparr>drawn := Suc (drawn s2)\<rparr>)"
    unfolding v2_def by (rule uniform_int_pair)
  have e3: "uniform_int 1 3 s4 = (v3, s4\<lparr>drawn := Suc (drawn s4)\<rparr>)"
    unfolding v3_def by (rule uniform_int_pair)
  have eq: "terrainState cityConfig steadyStream
      = (farmPatch cityConfig ^^ nat v3) (s4\<lparr>drawn := Suc (drawn s4)\<rparr>)"
    unfolding terrainState_def generateTerrain_def e1 prod.case Let_def s2_def[symmetric] e2
      s4_def[symmetric] e3 by (rule refl)
  have "corridorFree s2" unfolding s2_def using c0 by (intro w) simp
  then have "corridorFree s4" unfolding s4_def by (intro f) simp
  then show ?thesis unfolding eq by (intro m) simp
qed

lemma fold_claim_row_road:
  "x \<in> set xs \<Longrightarrow> grid s (x, y) = EMPTY \<Longrightarrow>
   grid (fold (\<lambda>x. claimRoadIfEmpty (x, y)) xs s) (x, y) = ROAD"
proof (induction xs arbitrary: s)
  case Nil
  then show ?case by simp
next
  case (Cons a xs)
  show ?case
  proof (cases "a = x")
    case True
    have r: "grid (claimRoadIfEmpty (x, y) s) (x, y) = ROAD"
      using Cons.prems(2) by (simp add: claimRoadIfEmpty_def)
    have "settled (claimRoadIfEmpty (x, y) s)
            (fold (\<lambda>x. claimRoadIfEmpty (x, y)) xs (claimRoadIfEmpty (x, y) s))"
      by (rule settled_fold) (rule claimRoadIfEmpty_settled)
    then have "grid (fold (\<lambda>x. claimRoadIfEmpty (x, y)) xs (claimRoadIfEmpty (x, y) s)) (x, y)
        = grid (claimRoadIfEmpty (x, y) s) (x, y)"
      using r unfolding settled_def by (metis CellType.distinct(1))
    then show ?thesis using r True by simp
  next
    case False
    then have "x \<in> set xs" using Cons.prems(1) by simp
    moreover have "grid (claimRoadIfEmpty (a, y) s) (x, y) = EMPTY"
      using False Cons.prems(2) by (simp add: claimRoadIfEmpty_def)
    ultimately show ?thesis using Cons.IH by simp
  qed
qed

lemma generateInitialRoads_cars_exist:
  "roads (generateInitialRoads cfg s) \<noteq> [] \<Longrightarrow> cars (generateInitialRoads cfg s) \<noteq> []"
proof -
  let ?y = "GRID_HEIGHT cfg div 2" and ?x = "GRID_WIDTH cfg div 2"
  let ?s3 = "fold (branchRoad cfg) [0..<INITIAL_ROADS cfg]
               (fold (\<lambda>y. claimRoadIfEmpty (?x, y)) [0..GRID_HEIGHT cfg - 1]
                  (fold (\<lambda>x. claimRoadIfEmpty (x, ?y)) [0..GRID_WIDTH cfg - 1] s))"
  let ?s4 = "(addRandomCar cfg ^^ 14) ?s3"
  have eq: "generateInitialRoads cfg s = addRandomCar cfg ?s4"
    by (simp add: generateInitialRoads_def Let_def eval_nat_numeral)
  assume "roads (generateInitialRoads cfg s) \<noteq> []"
  then have "roads ?s4 \<noteq> []" unfolding eq by simp
  from addRandomCar_cars[OF this, of cfg] show ?thesis unfolding eq by auto
qed

text \<open>
  With the steady stream, the program's own grid has the Road cell \<open>(0, 22)\<close> and cars
  from the start.
\<close>

lemma steady_run:
  "grid (run cityConfig steadyStream 0) (0, 22) = ROAD"
  "(0, 22) \<in> set (roads (run cityConfig steadyStream 0))"
  "cars (run cityConfig steadyStream 0) \<noteq> []"
proof -
  let ?t = "terrainState cityConfig steadyStream"
  let ?s1 = "fold (\<lambda>x. claimRoadIfEmpty (x, GRID_HEIGHT cityConfig div 2))
               [0..GRID_WIDTH cityConfig - 1] ?t"
  have e: "grid ?t (0, 22) = EMPTY" using steady_terrain by (simp add: corridorFree_def)
  have "grid (fold (\<lambda>x. claimRoadIfEmpty (x, 22)) [0..79] ?t) (0, 22) = ROAD"
    using e by (intro fold_claim_row_road) simp_all
  then have r1: "grid ?s1 (0, 22) = ROAD" by simp
  have "settled ?s1 (generateInitialRoads cityConfig ?t)"
    unfolding generateInitialRoads_def Let_def
    by (intro settled_trans[OF settled_fold settled_trans[OF settled_fold settled_funpow]]
      claimRoadIfEmpty_settled branchRoad_settled addRandomCar_settled)
  then have "grid (generateInitialRoads cityConfig ?t) (0, 22) = grid ?s1 (0, 22)"
    using r1 unfolding settled_def by (metis CellType.distinct(1))
  then show g: "grid (run cityConfig steadyStream 0) (0, 22) = ROAD"
    using r1 by (simp add: run_0)
  then show m: "(0, 22) \<in> set (roads (run cityConfig steadyStream 0))"
    using run_roadsExact[of cityConfig steadyStream 0] by (auto simp: roadsExact_def)
  then have "roads (generateInitialRoads cityConfig ?t) \<noteq> []" by (auto simp: run_0)
  then show "cars (run cityConfig steadyStream 0) \<noteq> []"
    unfolding run_0 by (rule generateInitialRoads_cars_exist)
qed

subsection \<open>Roads and road tags\<close>

text \<open>
  C1. After initialization and any number of ticks, every coordinate in the road
  sequence has grid tag Road, and every grid cell with tag Road is in the road sequence.
\<close>

theorem roads_match_road_tags: "roadsTagged cfg (run cfg g n)"
  using run_roadsExact[of cfg g n] by (auto simp: roadsTagged_def roadsExact_def)

theorem roads_match_road_tags_witness:
  "roadsTagged cityConfig (run cityConfig steadyStream 0)
   \<and> (0, 22) \<in> set (roads (run cityConfig steadyStream 0))
   \<and> grid (run cityConfig steadyStream 0) (0, 22) = ROAD
   \<and> roadsTagged cityConfig (run cityConfig steadyStream 30)"
  using roads_match_road_tags[of cityConfig steadyStream 0]
    roads_match_road_tags[of cityConfig steadyStream 30] steady_run(1,2)
  by simp

subsection \<open>The cadence of the road extension\<close>

text \<open>
  C2, as the code has it. The road extension runs in a tick exactly when the step
  counter is a multiple of 3 and of 10, that is of 30: the clock enters the growth
  engine only on multiples of 3, and the engine extends roads only on multiples of 10.
  In every other tick the road sequence is unchanged.
\<close>

theorem extension_every_thirtieth_tick:
  "simulationStep cfg s =
     (if currentStep s mod 3 = 0 \<and> currentStep s mod 10 = 0
      then tickWithExtension cfg s else tickWithoutExtension cfg s)
   \<and> roads (tickWithoutExtension cfg s) = roads s"
  by (simp add: simulationStep_cases tickWithoutExtension_roads)

text \<open>
  C2, as stated, fails at tick 10: the tick is the traffic update and the counter's
  increment and nothing else, and the road sequence is unchanged, although the
  extension, had it run, would have added a road.
\<close>

theorem extension_every_tenth_tick_counterexample:
  "currentStep hamletState mod 10 = 0
   \<and> simulationStep cityConfig hamletState
       = (updateCars cityConfig hamletState)\<lparr>currentStep := 11\<rparr>
   \<and> roads (simulationStep cityConfig hamletState) = roads hamletState
   \<and> roads (tickWithExtension cityConfig hamletState) \<noteq> roads hamletState"
proof -
  have "simulationStep cityConfig hamletState
       = (updateCars cityConfig hamletState)\<lparr>currentStep := 11\<rparr>"
    by (simp add: simulationStep_def Let_def hamlet_fields)
  then show ?thesis using hamlet_extension_adds by (simp add: hamlet_fields)
qed

theorem extension_every_thirtieth_tick_witness:
  "simulationStep cityConfig (hamletState\<lparr>currentStep := 30\<rparr>)
     = tickWithExtension cityConfig (hamletState\<lparr>currentStep := 30\<rparr>)
   \<and> simulationStep cityConfig hamletState = tickWithoutExtension cityConfig hamletState"
  using extension_every_thirtieth_tick[of cityConfig "hamletState\<lparr>currentStep := 30\<rparr>"]
    extension_every_thirtieth_tick[of cityConfig hamletState]
  by (simp add: hamlet_fields)

subsection \<open>The degenerate state without roads\<close>

text \<open>
  C3, as the code has it. With an empty road sequence and no Road tag in the grid, the
  traffic update and the spawn routine change nothing, and the growth engine places no
  building and adds no road: it is the maturation pass alone, which leaves the grid,
  the road sequence, the cars and the water cells as they are, adds one to the age of
  every cell of the grid that is neither Empty, Road nor Water, and leaves the record
  of every other cell as it is.
\<close>

theorem no_roads_no_growth:
  "roads s = [] \<Longrightarrow> (\<forall>p. isValidCell cfg (fst p) (snd p) \<longrightarrow> grid s p \<noteq> ROAD) \<Longrightarrow>
     updateCars cfg s = s
     \<and> addRandomCar cfg s = s
     \<and> placeBuildings cfg s = s
     \<and> growCity cfg s = matureBuildings cfg s
     \<and> grid (growCity cfg s) = grid s
     \<and> roads (growCity cfg s) = []
     \<and> cars (growCity cfg s) = cars s
     \<and> waterCells (growCity cfg s) = waterCells s
     \<and> (\<forall>p. isValidCell cfg (fst p) (snd p)
              \<and> grid s p \<noteq> EMPTY \<and> grid s p \<noteq> ROAD \<and> grid s p \<noteq> WATER
            \<longrightarrow> age (buildings (growCity cfg s) p) = age (buildings s p) + 1)
     \<and> (\<forall>p. \<not> isValidCell cfg (fst p) (snd p)
              \<or> grid s p = EMPTY \<or> grid s p = ROAD \<or> grid s p = WATER
            \<longrightarrow> buildings (growCity cfg s) p = buildings s p)"
  using growCity_no_roads[of s cfg] matureBuildings_ages[of cfg _ s] matureBuildings_record[of cfg _ s]
  by (simp add: updateCars_def addRandomCar_def)

theorem no_roads_no_growth_witness:
  "updateCars cityConfig woodState = woodState
   \<and> addRandomCar cityConfig woodState = woodState
   \<and> growCity cityConfig woodState = matureBuildings cityConfig woodState
   \<and> grid (growCity cityConfig woodState) = grid woodState
   \<and> roads (growCity cityConfig woodState) = []
   \<and> grid woodState (0, 0) = FOREST
   \<and> age (buildings woodState (0, 0)) = 0
   \<and> age (buildings (growCity cityConfig woodState) (0, 0)) = 1
   \<and> buildings (growCity cityConfig woodState) (1, 1) = buildings woodState (1, 1)"
proof -
  have h: "roads woodState = []"
    "\<forall>p. isValidCell cityConfig (fst p) (snd p) \<longrightarrow> grid woodState p \<noteq> ROAD"
    by (simp_all add: wood_fields)
  note t = no_roads_no_growth[OF h]
  have ages: "isValidCell cityConfig (fst p) (snd p)
      \<and> grid woodState p \<noteq> EMPTY \<and> grid woodState p \<noteq> ROAD \<and> grid woodState p \<noteq> WATER
    \<Longrightarrow> age (buildings (growCity cityConfig woodState) p) = age (buildings woodState p) + 1" for p
    using t by blast
  have recs: "grid woodState p = EMPTY
    \<Longrightarrow> buildings (growCity cityConfig woodState) p = buildings woodState p" for p
    using t by blast
  have a: "age (buildings (growCity cityConfig woodState) (0, 0)) = 1"
    using ages[of "(0, 0)"] by (simp add: wood_fields isValidCell_def)
  have e: "grid woodState (1, 1) = EMPTY" by (simp add: woodState_def stateOf_def)
  show ?thesis
    using t a recs[OF e] by (simp add: wood_fields)
qed

text \<open>
  C3, as stated, fails where a Forest cell exists: the growth engine ages it although
  there is no road.
\<close>

theorem no_roads_no_change_counterexample:
  "roads woodState = []
   \<and> age (buildings woodState (0, 0)) = 0
   \<and> 1 \<le> age (buildings (growCity cityConfig woodState) (0, 0))
   \<and> growCity cityConfig woodState \<noteq> woodState"
proof -
  have g: "growCity cityConfig woodState = matureBuildings cityConfig woodState"
    by (rule growCity_no_roads) (simp_all add: wood_fields)
  have "(0, 0) \<in> set (allCells cityConfig)" by (simp add: allCells_set)
  then have "age (buildings woodState (0, 0)) + 1
      \<le> age (buildings (fold matureCell (allCells cityConfig) woodState) (0, 0))"
    by (rule fold_matureCell_ages) (simp add: wood_fields)
  then have a: "1 \<le> age (buildings (growCity cityConfig woodState) (0, 0))"
    by (simp add: g matureBuildings_def wood_fields)
  then have "growCity cityConfig woodState \<noteq> woodState"
    using wood_fields(3) by auto
  with a show ?thesis by (simp add: wood_fields)
qed

subsection \<open>The placed type\<close>

text \<open>
  C4. The type placed on an admitted spot \<open>(x, y)\<close> is a function of the one roll \<open>r\<close>
  drawn for it from \<open>0..100\<close>: Residential below 60, Commercial below 85, else
  Industrial; then Residential if Water lies within radius 3 and \<open>r < 80\<close>; then
  Residential if Park or Forest lies within radius 3 and \<open>r < 75\<close>; then Park if
  \<open>r > 95\<close> and the step counter exceeds 50. The grid tag and the building record's type
  both receive it.
\<close>

theorem placed_type_follows_roll:
  "r = fst (uniform_int 0 100 s) \<Longrightarrow>
     0 \<le> r \<and> r \<le> 100
     \<and> grid (placeBuilding cfg (x, y) s) (x, y)
         = specType r (typeWithin cfg s x y WATER 3)
             (typeWithin cfg s x y PARK 3 \<or> typeWithin cfg s x y FOREST 3) (currentStep s)
     \<and> btype (buildings (placeBuilding cfg (x, y) s) (x, y))
         = grid (placeBuilding cfg (x, y) s) (x, y)"
  using uniform_int_range[of 0 100 s] by (simp add: chooseType_spec)

theorem placed_type_follows_roll_witness:
  "fst (uniform_int 0 100 lakesideState) = 70
   \<and> grid (placeBuilding cityConfig (1, 1) lakesideState) (1, 1) = RESIDENTIAL
   \<and> btype (buildings (placeBuilding cityConfig (1, 1) lakesideState) (1, 1)) = RESIDENTIAL"
proof -
  have r: "(70::int) = fst (uniform_int 0 100 lakesideState)"
    by (simp add: rng_defs lakesideState_def stateOf_def)
  have w: "typeWithin cityConfig lakesideState 1 1 WATER 3"
    unfolding typeWithin_def
    by (rule exI[of _ 1], rule exI[of _ 1])
       (simp add: lakesideState_def stateOf_def isValidCell_def cityConfig_def binary32Config_def)
  show ?thesis
    using placed_type_follows_roll[OF r, of cityConfig 1 1] w r
    by (simp add: specType_def)
qed

subsection \<open>Assigned once\<close>

text \<open>
  C5 on the code: at tick 51 the rate admits two candidates. The Empty corner cell is
  collected twice, once for each road cell it touches, and the placement loop does
  not look at the grid again: the cell is placed as Residential (roll 10) and then
  placed again as Industrial (roll 90), in one invocation.
\<close>

theorem corner_cell_placed_twice:
  "grid cornerState (0, 0) = EMPTY
   \<and> buildingSpots cityConfig cornerState = [(0, 0), (0, 0)]
   \<and> cornerPlacedOnce = placeBuilding cityConfig (0, 0) (cornerState\<lparr>drawn := 1\<rparr>)
   \<and> placeBuildings cityConfig cornerState = placeBuilding cityConfig (0, 0) cornerPlacedOnce
   \<and> btype (buildings cornerPlacedOnce (0, 0)) = RESIDENTIAL
   \<and> btype (buildings (placeBuildings cityConfig cornerState) (0, 0)) = INDUSTRIAL
   \<and> grid (growCity cityConfig cornerState) (0, 0) = INDUSTRIAL"
proof -
  have b2: "btype (buildings (placeBuildings cityConfig cornerState) (0, 0)) = INDUSTRIAL"
    unfolding corner_placements using corner_second by simp
  have g2: "grid (placeBuildings cityConfig cornerState) (0, 0) = INDUSTRIAL"
    unfolding corner_placements using corner_second by simp
  have g3: "grid (growCity cityConfig cornerState) (0, 0) = INDUSTRIAL"
    using g2 by (simp add: growCity_def Let_def corner_fields)
  have d: "cornerPlacedOnce = placeBuilding cityConfig (0, 0) (cornerState\<lparr>drawn := 1\<rparr>)"
    by (simp only: cornerPlacedOnce_def cornerShuffled_def)
  show ?thesis
    by (intro conjI corner_fields(5) corner_spots d corner_placements
        cornerPlacedOnce_fields(3) b2 g3)
qed

subsection \<open>Age and density\<close>



subsection \<open>Rerouting\<close>



subsection \<open>The row-road scenario\<close>

text \<open>
  C8. On the 10 by 10 grid whose only non-Empty cells are the road of row 5, one
  invocation of the growth engine at step 0 places exactly \<open>min(1, candidateCount)\<close>
  buildings, whatever the generator draws; and every collected candidate is Empty and
  4-adjacent to a Road cell of the grid.
\<close>

theorem one_building_on_row_road:
  "GRID_WIDTH cfg = 10 \<Longrightarrow> GRID_HEIGHT cfg = 10 \<Longrightarrow> s = rowRoadState g k cs \<Longrightarrow>
     card {p. isValidCell cfg (fst p) (snd p) \<and> grid s p = EMPTY
              \<and> isBuilding (grid (growCity cfg s) p)}
       = min 1 (length (buildingSpots cfg s))
     \<and> (\<forall>p\<in>set (buildingSpots cfg s).
           grid s p = EMPTY
           \<and> (\<exists>q. isValidCell cfg (fst q) (snd q) \<and> grid s q = ROAD \<and> adjacent4 p q))"
proof (intro conjI ballI)
  assume w: "GRID_WIDTH cfg = 10" and h: "GRID_HEIGHT cfg = 10" and s: "s = rowRoadState g k cs"
  obtain ps where sub: "set ps \<subseteq> set (buildingSpots cfg s)"
    and len: "length ps = min (nat (1 + currentStep s div 50)) (length (buildingSpots cfg s))"
    and new: "{p. grid s p = EMPTY \<and> isBuilding (grid (growCity cfg s) p)} = set ps"
    using growCity_admitted[of cfg s] by blast
  have valid: "isValidCell cfg (fst p) (snd p)" if "p \<in> set ps" for p
    using sub that by (auto simp: buildingSpots_set)
  have "{p. isValidCell cfg (fst p) (snd p) \<and> grid s p = EMPTY
              \<and> isBuilding (grid (growCity cfg s) p)} = set ps"
    using new valid by blast
  moreover have "card (set ps) = min 1 (length (buildingSpots cfg s))"
  proof -
    have l: "length ps = min 1 (length (buildingSpots cfg s))"
      using len by (simp add: s rowRoad_fields)
    then have "length ps \<le> 1" by simp
    then have "ps = [] \<or> (\<exists>a. ps = [a])" by (cases ps) simp_all
    then show ?thesis using l by auto
  qed
  ultimately show "card {p. isValidCell cfg (fst p) (snd p) \<and> grid s p = EMPTY
              \<and> isBuilding (grid (growCity cfg s) p)} = min 1 (length (buildingSpots cfg s))"
    by simp
next
  fix p
  assume w: "GRID_WIDTH cfg = 10" and h: "GRID_HEIGHT cfg = 10" and s: "s = rowRoadState g k cs"
    and p: "p \<in> set (buildingSpots cfg s)"
  from p show "grid s p = EMPTY" by (simp add: buildingSpots_set)
  from p obtain r d where r: "r \<in> set (roads s)" and d: "d \<in> set [0, 1, 2, 3]"
    and pe: "p = (fst r + dx d, snd r + dy d)"
    unfolding buildingSpots_set by blast
  have "adjacent4 p r" unfolding pe using d by (intro unit_step_adjacent) simp
  moreover have "grid s r = ROAD" using r by (simp add: s rowRoad_fields)
  moreover have "isValidCell cfg (fst r) (snd r)"
    using r by (simp add: s rowRoad_fields isValidCell_def w h)
  ultimately show "\<exists>q. isValidCell cfg (fst q) (snd q) \<and> grid s q = ROAD \<and> adjacent4 p q"
    by blast
qed

theorem one_building_on_row_road_witness:
  "card {p. isValidCell (binary32Config 10 10) (fst p) (snd p)
            \<and> grid rowRoadStart p = EMPTY
            \<and> isBuilding (grid (growCity (binary32Config 10 10) rowRoadStart) p)}
     = 1
   \<and> (0, 4) \<in> set (buildingSpots (binary32Config 10 10) rowRoadStart)"
proof -
  let ?c = "binary32Config 10 10"
  have m: "(0, 4) \<in> set (buildingSpots ?c rowRoadStart)"
    unfolding buildingSpots_set rowRoadStart_def
    by (auto simp: rowRoad_fields isValidCell_def binary32Config_def dx_def dy_def
        intro!: bexI[of _ "(0, 5)"] bexI[of _ 3])
  then have "buildingSpots ?c rowRoadStart \<noteq> []" by auto
  then have one: "min 1 (length (buildingSpots ?c rowRoadStart)) = 1"
    by (cases "buildingSpots ?c rowRoadStart") simp_all
  have w: "GRID_WIDTH ?c = 10" and h: "GRID_HEIGHT ?c = 10" by (simp_all add: binary32Config_def)
  have "card {p. isValidCell ?c (fst p) (snd p) \<and> grid rowRoadStart p = EMPTY
              \<and> isBuilding (grid (growCity ?c rowRoadStart) p)}
          = min 1 (length (buildingSpots ?c rowRoadStart))"
    using one_building_on_row_road[OF w h rowRoadStart_def] by (rule conjunct1)
  then show ?thesis unfolding one using m by (intro conjI)
qed

subsection \<open>Water cells\<close>

text \<open>
  C9. Every coordinate in the water-cell sequence has tag Water when terrain
  generation ends; road building and every later tick leave that tag and the
  sequence itself unchanged.
\<close>

theorem water_cells_stay_water:
  "(\<forall>p\<in>set (waterCells (terrainState cfg g)).
       grid (terrainState cfg g) p = WATER \<and> grid (run cfg g n) p = WATER)
   \<and> waterCells (run cfg g n) = waterCells (terrainState cfg g)"
proof -
  have w: "\<forall>p\<in>set (waterCells (terrainState cfg g)). grid (terrainState cfg g) p = WATER"
    using terrainState_terrainOnly[of cfg g] by (simp add: terrainOnly_def waterTagged_def)
  have s: "settled (terrainState cfg g) (run cfg g n)" by (rule run_settled_from_terrain)
  show ?thesis
  proof (intro conjI ballI)
    fix p assume p: "p \<in> set (waterCells (terrainState cfg g))"
    with w show a: "grid (terrainState cfg g) p = WATER" by blast
    then have "grid (terrainState cfg g) p \<noteq> EMPTY" by simp
    with s have "grid (run cfg g n) p = grid (terrainState cfg g) p"
      unfolding settled_def by blast
    with a show "grid (run cfg g n) p = WATER" by simp
  next
    show "waterCells (run cfg g n) = waterCells (terrainState cfg g)"
      using s unfolding settled_def by blast
  qed
qed

theorem water_cells_stay_water_witness:
  "waterCells (terrainState cityConfig (\<lambda>i. 7 * int i)) \<noteq> []
   \<and> set (waterCells (terrainState cityConfig (\<lambda>i. 7 * int i)))
       \<subseteq> {p. grid (run cityConfig (\<lambda>i. 7 * int i) 30) p = WATER}
   \<and> waterCells (run cityConfig (\<lambda>i. 7 * int i) 30)
       = waterCells (terrainState cityConfig (\<lambda>i. 7 * int i))"
proof -
  have "waterCells (terrainState cityConfig (\<lambda>i. 7 * int i)) \<noteq> []"
    by (rule terrain_has_water) (simp_all add: cityConfig_def binary32Config_def)
  then show ?thesis
    using water_cells_stay_water[of cityConfig "\<lambda>i. 7 * int i" 30] by blast
qed

subsection \<open>Cars on roads\<close>

text \<open>
  C10. After initialization and after every tick, and after a traffic update or a
  spawn applied to such a state, every car's truncated position is a cell inside the
  grid whose tag is Road. This holds of the program as it computes, in binary32
  arithmetic and with its speed distribution, on every grid of up to \<open>2 ^ 22\<close> cells
  a side.
\<close>

theorem cars_stay_on_roads:
  assumes "0 < w" and "w \<le> 2 ^ 22" and "0 < h" and "h \<le> 2 ^ 22"
  shows "carsOnRoad (binary32Config w h) (run (binary32Config w h) g n)
     \<and> carsOnRoad (binary32Config w h) (updateCars (binary32Config w h) (run (binary32Config w h) g n))
     \<and> carsOnRoad (binary32Config w h) (addRandomCar (binary32Config w h) (run (binary32Config w h) g n))"
proof -
  let ?cfg = "binary32Config w h"
  have d: "0 < GRID_WIDTH ?cfg" "0 < GRID_HEIGHT ?cfg"
    using assms by (simp_all add: binary32Config_def)
  have f: "floatsSound ?cfg" using assms by (intro binary32_floatsSound)
  have t: "trafficSound ?cfg (run ?cfg g n)" by (rule run_trafficSound[OF d f])
  have r: "roadsExact (run ?cfg g n)" by (rule run_roadsExact)
  show ?thesis
    using t updateCars_trafficSound[OF f r t] addRandomCar_trafficSound[OF f r t]
    by (simp add: trafficSound_carsOnRoad)
qed

theorem cars_stay_on_roads_witness:
  "cars (run cityConfig steadyStream 0) \<noteq> []
   \<and> carsOnRoad cityConfig (run cityConfig steadyStream 0)
   \<and> carsOnRoad cityConfig (updateCars cityConfig (run cityConfig steadyStream 0))
   \<and> carsOnRoad cityConfig (addRandomCar cityConfig (run cityConfig steadyStream 0))"
  using cars_stay_on_roads[of 80 45 steadyStream 0] steady_run(3)
  by (simp add: cityConfig_def)

end
